theory Spec2Isabelle
  imports Complex_Main "HOL-Library.Word" "HOL-Library.Multiset"
begin

section \<open>Machine integers and floating point\<close>

text \<open>
  The C type \<open>int\<close> is 32 bits wide. Its values are modelled as HOL integers, and every
  \<open>int\<close> addition and subtraction of the source is followed by \<open>s32\<close>, the reduction
  to the two's complement range. \<open>c_int\<close> says that a value is in that range. A loop
  counter stays below its bound, so its increment needs no reduction.
\<close>

definition s32 :: "int \<Rightarrow> int" where
  "s32 v = (v + 2147483648) mod 4294967296 - 2147483648"

definition c_int :: "int \<Rightarrow> bool" where
  "c_int v \<longleftrightarrow> - 2147483648 \<le> v \<and> v \<le> 2147483647"

text \<open>C's \<open>/\<close> and \<open>%\<close> truncate towards zero; \<open>a % b\<close> is \<open>a - (a / b) * b\<close>.\<close>

definition c_div :: "int \<Rightarrow> int \<Rightarrow> int" where
  "c_div a b = (if (a < 0) = (b < 0) then \<bar>a\<bar> div \<bar>b\<bar> else - (\<bar>a\<bar> div \<bar>b\<bar>))"

definition c_mod :: "int \<Rightarrow> int \<Rightarrow> int" where
  "c_mod a b = a - c_div a b * b"

text \<open>
  A \<open>double\<close> is modelled by the real number it denotes. Each floating-point operation
  of the source is the exact operation followed by a rounding function \<open>rnd\<close>, which is
  a parameter of the model. \<open>exact_on_ints\<close> is the one property of IEEE rounding that
  the results below use: an integer of magnitude at most \<open>2^53\<close> is representable, so
  rounding leaves it unchanged. NaN and infinite weights are outside the model.
\<close>

type_synonym rounding = "real \<Rightarrow> real"

definition fmul :: "rounding \<Rightarrow> real \<Rightarrow> real \<Rightarrow> real" where
  "fmul rnd a b = rnd (a * b)"

definition fadd :: "rounding \<Rightarrow> real \<Rightarrow> real \<Rightarrow> real" where
  "fadd rnd a b = rnd (a + b)"

definition exact_on_ints :: "rounding \<Rightarrow> bool" where
  "exact_on_ints rnd \<longleftrightarrow> (\<forall>z::int. \<bar>z\<bar> \<le> 9007199254740992 \<longrightarrow> rnd (of_int z) = of_int z)"

section \<open>Data model\<close>

text \<open>
  Modelled from the spec: the struct \<open>Image\<close> and the type \<open>Matrix\<close> of image.h, which
  is not among the sources. An image has a width, a height, a number of bytes per pixel
  and a buffer of bytes; a kernel is a 3x3 grid of weights. The source uses them so:
  \<open>data\<close> is a buffer of \<open>uint8_t\<close>, \<open>width\<close>, \<open>height\<close> and \<open>bpp\<close> are \<open>int\<close> (their
  addresses are passed to \<open>stbi_load\<close>), and a \<open>Matrix\<close> is indexed
  \<open>algorithm[row][column]\<close> and multiplied into a \<open>double\<close>.
  A buffer is modelled by its contents; an access outside it is undefined behaviour in
  C and the value \<open>None\<close> in the model.
\<close>

type_synonym byte = "8 word"

record Image =
  data :: "byte list"
  width :: int
  height :: int
  bpp :: int

type_synonym Matrix = "(real \<times> real \<times> real) \<times> (real \<times> real \<times> real) \<times> (real \<times> real \<times> real)"

text \<open>
  Modelled from the spec: the macro \<open>Index(x,y,width,bit,bpp)\<close> of image.h, which is
  not among the sources. The spec's data model is "row-major, channels interleaved per
  pixel": the byte of channel \<open>bit\<close> of the pixel in column \<open>x\<close> of row \<open>y\<close> is at
  offset \<open>y * width * bpp + bpp * x + bit\<close>. The arithmetic of the macro itself is not
  visible; the model takes the exact offset.
\<close>

definition Index :: "int \<Rightarrow> int \<Rightarrow> int \<Rightarrow> int \<Rightarrow> int \<Rightarrow> int" where
  "Index x y w bt b = y * w * b + b * x + bt"

definition in_buffer :: "byte list \<Rightarrow> int \<Rightarrow> bool" where
  "in_buffer buf i \<longleftrightarrow> 0 \<le> i \<and> i < int (length buf)"

definition load :: "byte list \<Rightarrow> int \<Rightarrow> byte option" where
  "load buf i = (if in_buffer buf i then Some (buf ! nat i) else None)"

definition store :: "byte list \<Rightarrow> int \<Rightarrow> byte \<Rightarrow> byte list option" where
  "store buf i v = (if in_buffer buf i then Some (buf[nat i := v]) else None)"


definition SHARPEN :: Matrix where
  "SHARPEN = ((0, -1, 0), (-1, 5, -1), (0, -1, 0))"

definition BLUR :: "rounding \<Rightarrow> Matrix" where
  "BLUR rnd = (let n = rnd (1 / 9) in ((n, n, n), (n, n, n), (n, n, n)))"

definition GAUSE_BLUR :: Matrix where
  "GAUSE_BLUR = ((1 / 16, 1 / 8, 1 / 16), (1 / 8, 1 / 4, 1 / 8), (1 / 16, 1 / 8, 1 / 16))"

definition EMBOSS :: Matrix where
  "EMBOSS = ((-2, -1, 0), (-1, 1, 1), (0, 1, 2))"

definition IDENTITY :: Matrix where
  "IDENTITY = ((0, 0, 0), (0, 1, 0), (0, 0, 0))"

section \<open>getPixelValue\<close>

text \<open>
  The neighbour coordinates of the source: \<open>px\<close>, \<open>py\<close>, \<open>mx\<close>, \<open>my\<close> after the four
  \<open>if\<close> statements, returned as \<open>(mx, my, px, py)\<close>. The variable \<open>span\<close> is assigned
  and never read; it has no counterpart here.
\<close>

definition neighbours :: "Image \<Rightarrow> int \<Rightarrow> int \<Rightarrow> int \<times> int \<times> int \<times> int" where
  "neighbours srcImage x y =
     (let px = s32 (x + 1); py = s32 (y + 1); mx = s32 (x - 1); my = s32 (y - 1);
          mx = (if mx < 0 then 0 else mx);
          my = (if my < 0 then 0 else my);
          px = (if px \<ge> width srcImage then s32 (width srcImage - 1) else px);
          py = (if py \<ge> height srcImage then s32 (height srcImage - 1) else py)
      in (mx, my, px, py))"

text \<open>
  The offsets of the nine reads of \<open>srcImage->data\<close>, in the order of the sum.
\<close>

definition read_offsets :: "Image \<Rightarrow> int \<Rightarrow> int \<Rightarrow> int \<Rightarrow> int list" where
  "read_offsets srcImage x y bt =
     (case neighbours srcImage x y of (mx, my, px, py) \<Rightarrow>
        [Index mx my (width srcImage) bt (bpp srcImage),
         Index x my (width srcImage) bt (bpp srcImage),
         Index px my (width srcImage) bt (bpp srcImage),
         Index mx y (width srcImage) bt (bpp srcImage),
         Index x y (width srcImage) bt (bpp srcImage),
         Index px y (width srcImage) bt (bpp srcImage),
         Index mx py (width srcImage) bt (bpp srcImage),
         Index x py (width srcImage) bt (bpp srcImage),
         Index px py (width srcImage) bt (bpp srcImage)])"

text \<open>A \<open>uint8_t\<close> converted to \<open>double\<close>, which is exact.\<close>

definition to_double :: "byte \<Rightarrow> real" where
  "to_double v = real (unat v)"

text \<open>
  The weighted sum, associated to the left as C does, every product and every sum
  rounded.
\<close>

fun weighted_sum :: "rounding \<Rightarrow> Matrix \<Rightarrow> byte list \<Rightarrow> real" where
  "weighted_sum rnd ((a00, a01, a02), (a10, a11, a12), (a20, a21, a22))
      [d00, d01, d02, d10, d11, d12, d20, d21, d22] =
     fadd rnd (fadd rnd (fadd rnd (fadd rnd (fadd rnd (fadd rnd (fadd rnd (fadd rnd
       (fmul rnd a00 (to_double d00))
       (fmul rnd a01 (to_double d01)))
       (fmul rnd a02 (to_double d02)))
       (fmul rnd a10 (to_double d10)))
       (fmul rnd a11 (to_double d11)))
       (fmul rnd a12 (to_double d12)))
       (fmul rnd a20 (to_double d20)))
       (fmul rnd a21 (to_double d21)))
       (fmul rnd a22 (to_double d22))"
| "weighted_sum rnd algorithm ds = 0"

text \<open>The two clamping statements, in the order of the source.\<close>

definition clamp255 :: "real \<Rightarrow> real" where
  "clamp255 r = (let r = (if r > 255 then 255 else r) in if r < 0 then 0 else r)"

text \<open>
  The cast \<open>(uint8_t)result_double\<close> drops the fraction; the value is between 0 and
  255 here, so truncation is the floor.
\<close>

definition to_uint8 :: "real \<Rightarrow> byte" where
  "to_uint8 r = word_of_int \<lfloor>r\<rfloor>"

text \<open>
  The value of \<open>result_double\<close> before the clamping statements; \<open>None\<close> when one of
  the nine reads is outside the buffer.
\<close>

definition result_double :: "rounding \<Rightarrow> Image \<Rightarrow> int \<Rightarrow> int \<Rightarrow> int \<Rightarrow> Matrix \<Rightarrow> real option" where
  "result_double rnd srcImage x y bt algorithm =
     (case those (map (load (data srcImage)) (read_offsets srcImage x y bt)) of
        None \<Rightarrow> None
      | Some ds \<Rightarrow> Some (weighted_sum rnd algorithm ds))"

definition getPixelValue :: "rounding \<Rightarrow> Image \<Rightarrow> int \<Rightarrow> int \<Rightarrow> int \<Rightarrow> Matrix \<Rightarrow> byte option" where
  "getPixelValue rnd srcImage x y bt algorithm =
     (case result_double rnd srcImage x y bt algorithm of
        None \<Rightarrow> None
      | Some r \<Rightarrow> Some (to_uint8 (clamp255 r)))"

section \<open>Workers\<close>

text \<open>
  What a worker needs to know: the source image, its copy of the kernel and its rows.
  The destination, which all workers share, is the state that the workers transform.
  Source and destination are two buffers, as in \<open>main\<close>, where one comes from
  \<open>stbi_load\<close> and the other from \<open>malloc\<close>; so what a worker reads does not depend
  on what the workers have written.
\<close>

record ThreadData =
  td_srcImage :: Image
  td_algorithm :: Matrix
  start_row :: int
  end_row :: int

text \<open>
  One execution of the innermost loop body: the value computed by \<open>getPixelValue\<close>
  (\<open>None\<close> when one of its reads leaves the source buffer) and the offset in the
  destination buffer where it is written.
\<close>

type_synonym pixel_op = "int \<times> byte option"

definition loop_body :: "rounding \<Rightarrow> Image \<Rightarrow> Matrix \<Rightarrow> int \<Rightarrow> int \<Rightarrow> int \<Rightarrow> pixel_op" where
  "loop_body rnd srcImage algorithm row pix bt =
     (Index pix row (width srcImage) bt (bpp srcImage),
      getPixelValue rnd srcImage pix row bt algorithm)"

text \<open>
  The three nested loops of \<open>convolute_thread_worker\<close>, as the sequence of loop bodies
  they run: \<open>[a..b - 1]\<close> is \<open>for (v = a; v < b; v++)\<close>.
\<close>

definition worker_ops :: "rounding \<Rightarrow> ThreadData \<Rightarrow> pixel_op list" where
  "worker_ops rnd td =
     concat (map (\<lambda>row.
       concat (map (\<lambda>pix.
         map (\<lambda>bt. loop_body rnd (td_srcImage td) (td_algorithm td) row pix bt)
           [0..bpp (td_srcImage td) - 1])
         [0..width (td_srcImage td) - 1]))
       [start_row td..end_row td - 1])"

text \<open>The loops of the serial fallback in \<open>convolute\<close>.\<close>

definition serial_ops :: "rounding \<Rightarrow> Image \<Rightarrow> Matrix \<Rightarrow> pixel_op list" where
  "serial_ops rnd srcImage algorithm =
     concat (map (\<lambda>row.
       concat (map (\<lambda>pix.
         map (\<lambda>bt. loop_body rnd srcImage algorithm row pix bt)
           [0..bpp srcImage - 1])
         [0..width srcImage - 1]))
       [0..height srcImage - 1])"

text \<open>
  Running loop bodies on the destination buffer, one after the other. An access
  outside a buffer ends the run with \<open>None\<close>.
\<close>

fun exec_ops :: "pixel_op list \<Rightarrow> byte list \<Rightarrow> byte list option" where
  "exec_ops [] buf = Some buf"
| "exec_ops ((i, v) # ops) buf =
     (case v of
        None \<Rightarrow> None
      | Some b \<Rightarrow> (case store buf i b of None \<Rightarrow> None | Some buf' \<Rightarrow> exec_ops ops buf'))"

definition convolute_thread_worker :: "rounding \<Rightarrow> ThreadData \<Rightarrow> byte list \<Rightarrow> byte list option" where
  "convolute_thread_worker rnd td dest = exec_ops (worker_ops rnd td) dest"

section \<open>The scheduler\<close>

text \<open>
  What \<open>convolute\<close> gets from its environment: the result of \<open>sysconf\<close> (a \<open>long\<close>),
  whether both calls of \<open>malloc\<close> return a buffer, the return code of the \<open>i\<close>-th call
  of \<open>pthread_create\<close>, and the order in which the running workers take their steps.
\<close>

record env =
  num_cores :: int
  malloc_ok :: bool
  create_rc :: "nat \<Rightarrow> int"
  schedule :: "nat list"

text \<open>
  The steps of concurrent workers in the order of a schedule: each entry names the
  worker that runs its next loop body. When the schedule is used up, the workers run
  to their ends in the order in which they are joined.
\<close>

fun interleave :: "nat list \<Rightarrow> 'a list list \<Rightarrow> 'a list" where
  "interleave [] qs = concat qs"
| "interleave (i # sched) qs =
     (if i < length qs
      then (case qs ! i of
              [] \<Rightarrow> interleave sched qs
            | a # as \<Rightarrow> a # interleave sched (qs[i := as]))
      else interleave sched qs)"

text \<open>
  The interleavings of the step sequences \<open>qs\<close> of concurrent workers: at each moment
  one worker that has steps left takes its next one. Every interleaving is the
  result of a schedule (lemma \<open>interleave_complete\<close> below).
\<close>

inductive interleaving :: "'a list list \<Rightarrow> 'a list \<Rightarrow> bool" where
  finished: "\<forall>q\<in>set qs. q = [] \<Longrightarrow> interleaving qs []"
| step: "i < length qs \<Longrightarrow> qs ! i = a # as \<Longrightarrow> interleaving (qs[i := as]) zs \<Longrightarrow>
         interleaving qs (a # zs)"

code_pred interleaving .

text \<open>
  The launch loop, for the thread indices still to come. It ends either with every
  worker started, or at the first \<open>pthread_create\<close> that returns a nonzero code.
\<close>

datatype launched = AllStarted "ThreadData list" | SpawnFailed nat int

fun launch :: "(nat \<Rightarrow> int) \<Rightarrow> Image \<Rightarrow> Matrix \<Rightarrow> int \<Rightarrow> int \<Rightarrow> int \<Rightarrow> nat list \<Rightarrow> launched" where
  "launch rc srcImage algorithm rows_per_thread remaining_rows current_row [] = AllStarted []"
| "launch rc srcImage algorithm rows_per_thread remaining_rows current_row (i # is) =
     (let rows_for_this_thread =
            (if remaining_rows > 0 then s32 (rows_per_thread + 1) else rows_per_thread);
          remaining_rows' =
            (if remaining_rows > 0 then s32 (remaining_rows - 1) else remaining_rows);
          td = \<lparr>td_srcImage = srcImage, td_algorithm = algorithm,
                start_row = current_row,
                end_row = s32 (current_row + rows_for_this_thread)\<rparr>
      in if rc i \<noteq> 0 then SpawnFailed i (rc i)
         else (case launch rc srcImage algorithm rows_per_thread remaining_rows' (end_row td) is of
                 AllStarted tds \<Rightarrow> AllStarted (td # tds)
               | SpawnFailed j c \<Rightarrow> SpawnFailed j c))"

text \<open>
  What \<open>convolute\<close> does that its caller or the user can see: the lines it prints,
  the threads it creates and joins, and how it ends. \<open>Returned\<close> carries the
  destination image after the call, \<open>Exited\<close> the argument of \<open>exit\<close>; \<open>Undefined\<close> is
  undefined behaviour: an access outside a buffer or a division by zero.
\<close>

datatype event =
    Print_threads int
  | Print_alloc_error
  | Created nat
  | Print_create_error int
  | Joined nat

datatype outcome = Returned Image | Exited int | Undefined

text \<open>The narrowing \<open>int num_threads = (int)num_cores\<close>.\<close>

definition num_threads :: "env \<Rightarrow> int" where
  "num_threads e = s32 (num_cores e)"

definition finish :: "Image \<Rightarrow> byte list option \<Rightarrow> outcome" where
  "finish destImage r =
     (case r of None \<Rightarrow> Undefined | Some d \<Rightarrow> Returned (destImage\<lparr>data := d\<rparr>))"

definition convolute :: "rounding \<Rightarrow> env \<Rightarrow> Image \<Rightarrow> Image \<Rightarrow> Matrix \<Rightarrow> event list \<times> outcome" where
  "convolute rnd e srcImage destImage algorithm =
     (let num_threads = num_threads e in
      if \<not> malloc_ok e then
        ([Print_threads num_threads, Print_alloc_error],
         finish destImage (exec_ops (serial_ops rnd srcImage algorithm) (data destImage)))
      else if num_threads = 0 \<or> (height srcImage = - 2147483648 \<and> num_threads = - 1) then
        ([Print_threads num_threads], Undefined)
      else
        let rows_per_thread = c_div (height srcImage) num_threads;
            remaining_rows = c_mod (height srcImage) num_threads
        in case launch (create_rc e) srcImage algorithm rows_per_thread remaining_rows 0
                  [0..<nat num_threads] of
             SpawnFailed i rc \<Rightarrow>
               (Print_threads num_threads # map Created [0..<i] @ [Print_create_error rc],
                Exited (- 1))
           | AllStarted thread_data \<Rightarrow>
               (Print_threads num_threads # map Created [0..<nat num_threads]
                  @ map Joined [0..<nat num_threads],
                finish destImage
                  (exec_ops (interleave (schedule e) (map (worker_ops rnd) thread_data))
                     (data destImage))))"

section \<open>Notions of the specification\<close>

text \<open>
  A valid image: positive dimensions that are C integers, one to four bytes per pixel,
  and a buffer of \<open>width * height * bpp\<close> bytes.
\<close>

definition valid_image :: "Image \<Rightarrow> bool" where
  "valid_image img \<longleftrightarrow>
     0 < width img \<and> c_int (width img) \<and> 0 < height img \<and> c_int (height img) \<and>
     1 \<le> bpp img \<and> bpp img \<le> 4 \<and>
     int (length (data img)) = width img * height img * bpp img"

text \<open>A destination that declares the dimensions of the source.\<close>

definition same_shape :: "Image \<Rightarrow> Image \<Rightarrow> bool" where
  "same_shape srcImage destImage \<longleftrightarrow>
     width destImage = width srcImage \<and> height destImage = height srcImage \<and>
     bpp destImage = bpp srcImage"

text \<open>An in-bounds pixel coordinate and channel.\<close>

definition in_image :: "Image \<Rightarrow> int \<Rightarrow> int \<Rightarrow> int \<Rightarrow> bool" where
  "in_image img x y bt \<longleftrightarrow>
     0 \<le> x \<and> x < width img \<and> 0 \<le> y \<and> y < height img \<and> 0 \<le> bt \<and> bt < bpp img"

text \<open>
  The boundary policy in the words of the specification: a coordinate is clamped to
  the nearest coordinate in \<open>[0, n)\<close>, and the neighbourhood of \<open>(x, y)\<close> is the 3x3
  grid around it, each coordinate clamped on its own axis, row by row.
\<close>

definition clamp_coord :: "int \<Rightarrow> int \<Rightarrow> int" where
  "clamp_coord n v = (if v < 0 then 0 else if v \<ge> n then n - 1 else v)"

definition neighbourhood :: "Image \<Rightarrow> int \<Rightarrow> int \<Rightarrow> (int \<times> int) list" where
  "neighbourhood img x y =
     map (\<lambda>(dx, dy). (clamp_coord (width img) (x + dx), clamp_coord (height img) (y + dy)))
       [(- 1, - 1), (0, - 1), (1, - 1), (- 1, 0), (0, 0), (1, 0), (- 1, 1), (0, 1), (1, 1)]"

text \<open>The rows of a band, the half-open range from \<open>start_row\<close> to \<open>end_row\<close>.\<close>

definition rows_of :: "ThreadData \<Rightarrow> int set" where
  "rows_of td = {start_row td..<end_row td}"

definition band_size :: "ThreadData \<Rightarrow> int" where
  "band_size td = end_row td - start_row td"

section \<open>Auxiliary notions\<close>

text \<open>
  The band of the \<open>j\<close>-th worker in closed form, for the proofs: \<open>j\<close> bands of \<open>q\<close>
  rows lie before it, and \<open>min j r\<close> of them have one row more.
\<close>

definition band_start :: "int \<Rightarrow> int \<Rightarrow> nat \<Rightarrow> int" where
  "band_start q r j = int j * q + min (int j) r"

definition nth_band :: "Image \<Rightarrow> Matrix \<Rightarrow> int \<Rightarrow> int \<Rightarrow> int \<Rightarrow> nat \<Rightarrow> ThreadData" where
  "nth_band srcImage algorithm q r cur j =
     \<lparr>td_srcImage = srcImage, td_algorithm = algorithm,
      start_row = cur + band_start q r j,
      end_row = cur + band_start q r (Suc j)\<rparr>"

text \<open>
  The loop bodies for the rows from \<open>a\<close> up to \<open>b\<close>, of which the loops of a worker
  and of the serial fallback are instances.
\<close>

definition rows_ops :: "rounding \<Rightarrow> Image \<Rightarrow> Matrix \<Rightarrow> int \<Rightarrow> int \<Rightarrow> pixel_op list" where
  "rows_ops rnd srcImage algorithm a b =
     concat (map (\<lambda>row.
       concat (map (\<lambda>pix.
         map (\<lambda>bt. loop_body rnd srcImage algorithm row pix bt)
           [0..bpp srcImage - 1])
         [0..width srcImage - 1]))
       [a..b - 1])"

text \<open>
  A buffer after loop bodies have run on it: the byte at an offset is the value of the
  loop body with that offset, and the old byte where there is none.
\<close>

definition written :: "pixel_op list \<Rightarrow> byte list \<Rightarrow> byte list" where
  "written ops old =
     map (\<lambda>j. case map_of ops (int j) of Some (Some v) \<Rightarrow> v | _ \<Rightarrow> old ! j) [0..<length old]"

section \<open>Concrete inputs\<close>

text \<open>Exact arithmetic, the simplest rounding function.\<close>

definition exact :: rounding where
  "exact r = r"

text \<open>A one-column image of two rows and a destination of the same shape.\<close>

definition two_rows :: Image where
  "two_rows = \<lparr>data = [10, 20], width = 1, height = 2, bpp = 1\<rparr>"

definition two_rows_dest :: Image where
  "two_rows_dest = \<lparr>data = [0, 0], width = 1, height = 2, bpp = 1\<rparr>"

text \<open>
  Two processors, both allocations succeed, the first \<open>pthread_create\<close> succeeds and
  the second returns the error code 11.
\<close>

definition second_create_fails :: "nat \<Rightarrow> int" where
  "second_create_fails i = (if i = 1 then 11 else 0)"

definition spawn_failure_env :: env where
  "spawn_failure_env =
     \<lparr>num_cores = 2, malloc_ok = True, create_rc = second_create_fails, schedule = []\<rparr>"

text \<open>
  The query fails: \<open>sysconf\<close> returns \<open>-1\<close>, and the allocation of
  \<open>-1 * sizeof(pthread_t)\<close> bytes fails.
\<close>

definition always_created :: "nat \<Rightarrow> int" where
  "always_created i = 0"

definition query_failed_env :: env where
  "query_failed_env =
     \<lparr>num_cores = - 1, malloc_ok = False, create_rc = always_created, schedule = []\<rparr>"

text \<open>An image of one pixel with one channel.\<close>

definition single_pixel :: Image where
  "single_pixel = \<lparr>data = [7], width = 1, height = 1, bpp = 1\<rparr>"

text \<open>
  Two processors, both allocations and both \<open>pthread_create\<close> succeed, and the second
  worker takes the first step.
\<close>

definition two_workers_env :: env where
  "two_workers_env =
     \<lparr>num_cores = 2, malloc_ok = True, create_rc = always_created, schedule = [1, 0, 1]\<rparr>"

text \<open>Three processors for an image of two rows; all three workers are created.\<close>

definition three_workers_env :: env where
  "three_workers_env =
     \<lparr>num_cores = 3, malloc_ok = True, create_rc = always_created, schedule = [2, 1, 0]\<rparr>"

text \<open>
  The 4x4 single-channel image that is 0 everywhere except for the value 100 at
  column \<open>cx\<close> of row \<open>cy\<close>.
\<close>

definition spike :: "int \<Rightarrow> int \<Rightarrow> Image" where
  "spike cx cy =
     \<lparr>data = (replicate 16 0)[nat (4 * cy + cx) := 100], width = 4, height = 4, bpp = 1\<rparr>"

definition spike_dest :: Image where
  "spike_dest = \<lparr>data = replicate 16 7, width = 4, height = 4, bpp = 1\<rparr>"



text \<open>
  The query reports no processor, and \<open>malloc(0)\<close> returns a buffer for both
  allocations.
\<close>

definition zero_cores_env :: env where
  "zero_cores_env =
     \<lparr>num_cores = 0, malloc_ok = True, create_rc = always_created, schedule = []\<rparr>"

text \<open>The query fails with \<open>-1\<close>, and both allocations return a buffer all the same.\<close>

definition negative_cores_env :: env where
  "negative_cores_env =
     \<lparr>num_cores = - 1, malloc_ok = True, create_rc = always_created, schedule = []\<rparr>"





section \<open>Properties\<close>

subsection \<open>Machine arithmetic\<close>

lemma s32_id: "c_int v \<Longrightarrow> s32 v = v"
  by (simp add: s32_def c_int_def)

lemma c_div_nonneg: "0 \<le> a \<Longrightarrow> 0 < b \<Longrightarrow> c_div a b = a div b"
  by (simp add: c_div_def)

lemma c_mod_nonneg: "0 \<le> a \<Longrightarrow> 0 < b \<Longrightarrow> c_mod a b = a mod b"
  by (simp add: c_mod_def c_div_nonneg minus_div_mult_eq_mod)

subsection \<open>The launch loop and failing spawns\<close>

lemma launch_failed:
  "launch rc src k q r cur is = SpawnFailed j c \<Longrightarrow>
     \<exists>pre post. is = pre @ j # post \<and> (\<forall>i\<in>set pre. rc i = 0) \<and> c = rc j \<and> c \<noteq> 0"
proof (induction "is" arbitrary: r cur)
  case Nil
  then show ?case by simp
next
  case (Cons i "is")
  show ?case
  proof (cases "rc i = 0")
    case False
    with Cons.prems have "j = i" "c = rc i" by (auto simp: Let_def)
    with False show ?thesis by (intro exI[of _ "[]"] exI[of _ "is"]) auto
  next
    case True
    with Cons.prems obtain r' cur' where "launch rc src k q r' cur' is = SpawnFailed j c"
      by (auto simp: Let_def split: launched.splits)
    from Cons.IH[OF this] obtain pre post where
      "is = pre @ j # post" "\<forall>i\<in>set pre. rc i = 0" "c = rc j" "c \<noteq> 0" by blast
    with True show ?thesis by (intro exI[of _ "i # pre"] exI[of _ post]) simp
  qed
qed

lemma launch_fails:
  "\<exists>i\<in>set is. rc i \<noteq> 0 \<Longrightarrow> \<exists>j c. launch rc src k q r cur is = SpawnFailed j c"
proof (induction "is" arbitrary: r cur)
  case Nil
  then show ?case by simp
next
  case (Cons i "is")
  show ?case
  proof (cases "rc i = 0")
    case False
    then show ?thesis by (simp add: Let_def)
  next
    case True
    with Cons.prems have "\<exists>i\<in>set is. rc i \<noteq> 0" by auto
    from Cons.IH[OF this] show ?thesis using True
      by (simp add: Let_def split: launched.splits) (metis launched.distinct(1))
  qed
qed

lemma launch_failed_upt:
  assumes "launch rc src k q r cur [0..<n] = SpawnFailed j c"
  shows "j < n \<and> c = rc j \<and> c \<noteq> 0 \<and> (\<forall>i<j. rc i = 0)"
proof -
  from launch_failed[OF assms] obtain pre post where
    d: "[0..<n] = pre @ j # post" and z: "\<forall>i\<in>set pre. rc i = 0" and c: "c = rc j" "c \<noteq> 0"
    by blast
  from d have "j \<in> set [0..<n]" by simp
  then have jn: "j < n" by simp
  from d have "length pre < n"
    by (metis add_diff_cancel_left' diff_zero length_append length_upt less_add_same_cancel1 list.size(4) zero_less_Suc add_Suc_right)
  then have "[0..<n] ! length pre = length pre" by simp
  with d have lp: "length pre = j" by simp
  have "\<forall>i<j. rc i = 0"
  proof (intro allI impI)
    fix i assume "i < j"
    with lp have "pre ! i \<in> set pre" by simp
    moreover from \<open>i < j\<close> lp jn d have "pre ! i = i"
      by (metis add_0 less_trans nth_append nth_upt)
    ultimately show "rc i = 0" using z by auto
  qed
  with jn c show ?thesis by simp
qed

text \<open>
  C6, as the code has it: when a \<open>pthread_create\<close> fails, \<open>convolute\<close> prints the
  diagnostic and calls \<open>exit(-1)\<close> at once. It joins none of the workers it has
  started, and it does not return to its caller. The failing call is the first one
  with a nonzero return code; the workers before it have been created.
\<close>

theorem spawn_failure_exits_without_join:
  assumes "malloc_ok e" and "1 \<le> num_threads e"
    and "\<exists>i < nat (num_threads e). create_rc e i \<noteq> 0"
  shows "\<exists>i < nat (num_threads e). create_rc e i \<noteq> 0 \<and> (\<forall>j<i. create_rc e j = 0) \<and>
           convolute rnd e srcImage destImage algorithm =
             (Print_threads (num_threads e) # map Created [0..<i] @ [Print_create_error (create_rc e i)],
              Exited (- 1)) \<and>
           (\<forall>j. Joined j \<notin> set (fst (convolute rnd e srcImage destImage algorithm)))"
proof -
  let ?q = "c_div (height srcImage) (num_threads e)"
  let ?r = "c_mod (height srcImage) (num_threads e)"
  from assms(3) have "\<exists>i\<in>set [0..<nat (num_threads e)]. create_rc e i \<noteq> 0" by auto
  from launch_fails[OF this] obtain j c where
    l: "launch (create_rc e) srcImage algorithm ?q ?r 0 [0..<nat (num_threads e)] = SpawnFailed j c"
    by blast
  from launch_failed_upt[OF l] have
    j: "j < nat (num_threads e)" "c = create_rc e j" "c \<noteq> 0" "\<forall>i<j. create_rc e i = 0" by simp_all
  from assms(1,2) l have
    "convolute rnd e srcImage destImage algorithm =
       (Print_threads (num_threads e) # map Created [0..<j] @ [Print_create_error c], Exited (- 1))"
    by (simp add: convolute_def Let_def)
  with j show ?thesis by (intro exI[of _ j]) auto
qed

theorem spawn_failure_exits_without_join_witness:
  "malloc_ok spawn_failure_env \<and> 1 \<le> num_threads spawn_failure_env \<and>
   (\<exists>i < nat (num_threads spawn_failure_env). create_rc spawn_failure_env i \<noteq> 0) \<and>
   snd (convolute exact spawn_failure_env two_rows two_rows_dest IDENTITY) = Exited (- 1) \<and>
   (\<forall>j. Joined j \<notin> set (fst (convolute exact spawn_failure_env two_rows two_rows_dest IDENTITY)))"
proof -
  have h1: "malloc_ok spawn_failure_env"
    by (simp add: spawn_failure_env_def)
  have h2: "1 \<le> num_threads spawn_failure_env"
    by (simp add: spawn_failure_env_def num_threads_def s32_def)
  have "create_rc spawn_failure_env 1 \<noteq> 0" "1 < nat (num_threads spawn_failure_env)"
    by (simp_all add: spawn_failure_env_def num_threads_def s32_def second_create_fails_def)
  then have h3: "\<exists>i < nat (num_threads spawn_failure_env). create_rc spawn_failure_env i \<noteq> 0"
    by blast
  from spawn_failure_exits_without_join[OF h1 h2 h3, of exact two_rows two_rows_dest IDENTITY]
  show ?thesis using h1 h2 h3 by auto
qed

text \<open>
  C6, as the specification states it, fails: with two workers, the second of which
  cannot be created, the process exits while the first worker has been created and
  never joined.
\<close>

theorem join_before_exit_counterexample:
  "fst (convolute exact spawn_failure_env two_rows two_rows_dest IDENTITY) =
     [Print_threads 2, Created 0, Print_create_error 11] \<and>
   snd (convolute exact spawn_failure_env two_rows two_rows_dest IDENTITY) = Exited (- 1) \<and>
   Joined 0 \<notin> set (fst (convolute exact spawn_failure_env two_rows two_rows_dest IDENTITY))"
  by (simp add: convolute_def spawn_failure_env_def num_threads_def s32_def second_create_fails_def
      two_rows_def c_div_def c_mod_def Let_def upt_conv_Cons)

subsection \<open>The reads of getPixelValue\<close>

lemma Index_bounds:
  assumes "0 \<le> x" "x < w" "0 \<le> y" "y < h" "0 \<le> bt" "bt < b"
  shows "0 \<le> Index x y w bt b" and "Index x y w bt b < w * h * b"
proof -
  from assms have w: "0 < w" and b: "0 < b" by linarith+
  from assms w b have "0 \<le> y * w * b" "0 \<le> b * x" by simp_all
  with assms show "0 \<le> Index x y w bt b" by (simp add: Index_def)
  from assms b have a1: "b * x \<le> b * (w - 1)" by (intro mult_left_mono) simp_all
  from assms w b have "y * (w * b) \<le> (h - 1) * (w * b)"
    by (intro mult_right_mono) simp_all
  then have a2: "y * w * b \<le> (h - 1) * (w * b)" by (simp add: mult.assoc)
  from a1 a2 assms have "y * w * b + b * x + bt \<le> (h - 1) * (w * b) + b * (w - 1) + (b - 1)"
    by linarith
  also have "\<dots> = w * h * b - 1" by (simp add: algebra_simps)
  finally show "Index x y w bt b < w * h * b" by (simp add: Index_def)
qed

lemma neighbours_clamped:
  assumes "valid_image img" "0 \<le> x" "x < width img" "0 \<le> y" "y < height img"
  shows "neighbours img x y =
           (clamp_coord (width img) (x - 1), clamp_coord (height img) (y - 1),
            clamp_coord (width img) (x + 1), clamp_coord (height img) (y + 1))"
proof -
  from assms have c: "c_int (x + 1)" "c_int (x - 1)" "c_int (y + 1)" "c_int (y - 1)"
    "c_int (width img - 1)" "c_int (height img - 1)"
    by (simp_all add: valid_image_def c_int_def)
  show ?thesis
    using assms by (simp add: neighbours_def Let_def s32_id[OF c(1)] s32_id[OF c(2)] s32_id[OF c(3)] s32_id[OF c(4)] s32_id[OF c(5)] s32_id[OF c(6)] clamp_coord_def)
qed

lemma clamp_coord_range: "0 < n \<Longrightarrow> 0 \<le> clamp_coord n v \<and> clamp_coord n v < n"
  by (simp add: clamp_coord_def)

lemma clamp_coord_id: "0 \<le> v \<Longrightarrow> v < n \<Longrightarrow> clamp_coord n v = v"
  by (simp add: clamp_coord_def)

lemma read_offsets_neighbourhood:
  assumes "valid_image img" "in_image img x y bt"
  shows "read_offsets img x y bt =
           map (\<lambda>(cx, cy). Index cx cy (width img) bt (bpp img)) (neighbourhood img x y)"
  using assms
  by (simp add: read_offsets_def neighbours_clamped in_image_def neighbourhood_def clamp_coord_id)

lemma neighbourhood_in_image:
  assumes "valid_image img" "(cx, cy) \<in> set (neighbourhood img x y)"
  shows "0 \<le> cx \<and> cx < width img \<and> 0 \<le> cy \<and> cy < height img"
  using assms clamp_coord_range[of "width img"] clamp_coord_range[of "height img"]
  by (auto simp: neighbourhood_def valid_image_def)

lemma read_offsets_in_bounds:
  assumes "valid_image img" "in_image img x y bt" "i \<in> set (read_offsets img x y bt)"
  shows "0 \<le> i \<and> i < width img * height img * bpp img"
proof -
  from assms obtain cx cy where "(cx, cy) \<in> set (neighbourhood img x y)"
    and i: "i = Index cx cy (width img) bt (bpp img)"
    by (auto simp: read_offsets_neighbourhood)
  with assms(1) have "0 \<le> cx \<and> cx < width img \<and> 0 \<le> cy \<and> cy < height img"
    by (simp add: neighbourhood_in_image)
  with assms(2) i show ?thesis
    using Index_bounds[of cx "width img" cy "height img" bt "bpp img"] by (simp add: in_image_def)
qed

lemma those_load:
  "\<forall>i\<in>set offs. in_buffer buf i \<Longrightarrow>
     those (map (load buf) offs) = Some (map (\<lambda>i. buf ! nat i) offs)"
  by (induction offs) (simp_all add: load_def)

lemma those_load_None:
  "\<exists>i\<in>set offs. \<not> in_buffer buf i \<Longrightarrow> those (map (load buf) offs) = None"
  by (induction offs) (auto simp: load_def split: option.splits)

lemma result_double_valid:
  assumes "valid_image img" "in_image img x y bt"
  shows "result_double rnd img x y bt k =
           Some (weighted_sum rnd k (map (\<lambda>i. data img ! nat i) (read_offsets img x y bt)))"
proof -
  have "\<forall>i\<in>set (read_offsets img x y bt). in_buffer (data img) i"
    using read_offsets_in_bounds[OF assms] assms(1) by (simp add: in_buffer_def valid_image_def)
  then show ?thesis by (simp add: result_double_def those_load)
qed

lemma getPixelValue_valid:
  assumes "valid_image img" "in_image img x y bt"
  shows "getPixelValue rnd img x y bt k =
           Some (to_uint8 (clamp255 (weighted_sum rnd k
             (map (\<lambda>i. data img ! nat i) (read_offsets img x y bt)))))"
  by (simp add: getPixelValue_def result_double_valid[OF assms])

lemma neighbourhood_single:
  "width img = 1 \<Longrightarrow> height img = 1 \<Longrightarrow> x = 0 \<Longrightarrow> y = 0 \<Longrightarrow> neighbourhood img x y = replicate 9 (0, 0)"
  by (simp add: neighbourhood_def clamp_coord_def numeral_eq_Suc)

text \<open>
  C3: at an in-bounds pixel and channel of a valid image, \<open>getPixelValue\<close> reads the
  nine bytes of the 3x3 neighbourhood, each neighbour coordinate clamped on its own
  axis to the nearest coordinate of the image, row by row; every neighbour is a pixel
  of the image, so nothing is padded and nothing wraps around; the result is the
  clamped weighted sum of those nine bytes. In a 1x1 image the nine neighbours are
  the pixel itself.
\<close>

theorem getPixelValue_reads_clamped_neighbourhood:
  assumes "valid_image img" and "in_image img x y bt"
  shows "read_offsets img x y bt =
           map (\<lambda>(cx, cy). Index cx cy (width img) bt (bpp img)) (neighbourhood img x y) \<and>
         (\<forall>(cx, cy) \<in> set (neighbourhood img x y).
            0 \<le> cx \<and> cx < width img \<and> 0 \<le> cy \<and> cy < height img) \<and>
         getPixelValue rnd img x y bt k =
           Some (to_uint8 (clamp255 (weighted_sum rnd k
             (map (\<lambda>(cx, cy). data img ! nat (Index cx cy (width img) bt (bpp img)))
                (neighbourhood img x y))))) \<and>
         (width img = 1 \<and> height img = 1 \<longrightarrow> neighbourhood img x y = replicate 9 (x, y))"
proof -
  have r: "read_offsets img x y bt =
             map (\<lambda>(cx, cy). Index cx cy (width img) bt (bpp img)) (neighbourhood img x y)"
    by (rule read_offsets_neighbourhood[OF assms])
  have n: "\<forall>(cx, cy) \<in> set (neighbourhood img x y).
             0 \<le> cx \<and> cx < width img \<and> 0 \<le> cy \<and> cy < height img"
    using neighbourhood_in_image[OF assms(1)] by blast
  have "map (\<lambda>i. data img ! nat i) (read_offsets img x y bt) =
          map (\<lambda>(cx, cy). data img ! nat (Index cx cy (width img) bt (bpp img)))
            (neighbourhood img x y)"
    by (simp add: r split_def)
  then have g: "getPixelValue rnd img x y bt k =
           Some (to_uint8 (clamp255 (weighted_sum rnd k
             (map (\<lambda>(cx, cy). data img ! nat (Index cx cy (width img) bt (bpp img)))
                (neighbourhood img x y)))))"
    by (simp add: getPixelValue_valid[OF assms])
  have s: "width img = 1 \<and> height img = 1 \<longrightarrow> neighbourhood img x y = replicate 9 (x, y)"
  proof
    assume d: "width img = 1 \<and> height img = 1"
    with assms(2) have "x = 0" "y = 0" by (simp_all add: in_image_def)
    with d show "neighbourhood img x y = replicate 9 (x, y)"
      by (simp add: neighbourhood_single)
  qed
  from r n g s show ?thesis by blast
qed

theorem getPixelValue_reads_clamped_neighbourhood_witness:
  "valid_image single_pixel \<and> in_image single_pixel 0 0 0 \<and>
   read_offsets single_pixel 0 0 0 = [0, 0, 0, 0, 0, 0, 0, 0, 0] \<and>
   neighbourhood single_pixel 0 0 = replicate 9 (0, 0) \<and>
   getPixelValue exact single_pixel 0 0 0 SHARPEN = Some 7"
proof -
  have v: "valid_image single_pixel"
    by (simp add: valid_image_def single_pixel_def c_int_def)
  have i: "in_image single_pixel 0 0 0"
    by (simp add: in_image_def single_pixel_def)
  have n: "neighbourhood single_pixel 0 0 =
             [(0, 0), (0, 0), (0, 0), (0, 0), (0, 0), (0, 0), (0, 0), (0, 0), (0, 0)]"
    by (simp add: neighbourhood_def clamp_coord_def single_pixel_def)
  have w: "weighted_sum exact SHARPEN [7, 7, 7, 7, 7, 7, 7, 7, 7] = 7"
    by (simp add: SHARPEN_def fadd_def fmul_def exact_def to_double_def)
  note t = getPixelValue_reads_clamped_neighbourhood[OF v i, of exact SHARPEN]
  from t have r9: "neighbourhood single_pixel 0 0 = replicate 9 (0, 0)"
    by (simp add: single_pixel_def)
  from t have "read_offsets single_pixel 0 0 0 = [0, 0, 0, 0, 0, 0, 0, 0, 0]"
    and "getPixelValue exact single_pixel 0 0 0 SHARPEN =
           Some (to_uint8 (clamp255 (weighted_sum exact SHARPEN [7, 7, 7, 7, 7, 7, 7, 7, 7])))"
    unfolding n by (simp_all add: single_pixel_def Index_def)
  with v i r9 show ?thesis
    by (simp add: w clamp255_def to_uint8_def)
qed

subsection \<open>The row bands\<close>

lemma launch_all_started:
  assumes "\<forall>i\<in>set is. rc i = 0" and "0 \<le> q" and "0 \<le> r" and "0 \<le> cur"
    and "cur + int (length is) * q + r \<le> 2147483647"
  shows "launch rc src k q r cur is = AllStarted (map (nth_band src k q r cur) [0..<length is])"
  using assms
proof (induction "is" arbitrary: r cur)
  case Nil
  then show ?case by simp
next
  case (Cons i "is")
  let ?rows = "if r > 0 then q + 1 else q"
  let ?r' = "if r > 0 then r - 1 else r"
  define m where "m = int (length is) * q"
  from Cons.prems have m: "0 \<le> m" "cur + q + m + r \<le> 2147483647"
    by (simp_all add: m_def algebra_simps)
  from Cons.prems m have c: "0 < r \<Longrightarrow> c_int (q + 1)" "0 < r \<Longrightarrow> c_int (r - 1)"
    "c_int (cur + ?rows)"
    by (simp_all add: c_int_def)
  from Cons.prems m have "cur + ?rows + m + ?r' \<le> 2147483647" by simp
  with Cons.prems have
    IH: "launch rc src k q ?r' (cur + ?rows) is =
           AllStarted (map (nth_band src k q ?r' (cur + ?rows)) [0..<length is])"
    by (intro Cons.IH) (auto simp: m_def)
  have t: "map (nth_band src k q ?r' (cur + ?rows)) [0..<length is] =
           map (\<lambda>j. nth_band src k q r cur (Suc j)) [0..<length is]"
    using Cons.prems by (auto simp: nth_band_def band_start_def algebra_simps min_def)
  have h: "nth_band src k q r cur 0 =
             \<lparr>td_srcImage = src, td_algorithm = k, start_row = cur, end_row = cur + ?rows\<rparr>"
    using Cons.prems by (auto simp: nth_band_def band_start_def algebra_simps min_def)
  from Cons.prems have z: "rc i = 0" by simp
  show ?case
    using c IH z
    by (auto simp: Let_def s32_id map_upt_Suc t h simp del: upt_Suc)
qed


lemma band_start_step:
  "0 \<le> r \<Longrightarrow> band_start q r (Suc j) - band_start q r j = (if int j < r then q + 1 else q)"
  by (auto simp: band_start_def algebra_simps min_def)

lemma band_start_0: "0 \<le> r \<Longrightarrow> band_start q r 0 = 0"
  by (simp add: band_start_def)

lemma band_start_mono:
  assumes "0 \<le> q" "0 \<le> r" "i \<le> j"
  shows "band_start q r i \<le> band_start q r j"
proof -
  have "\<And>n. band_start q r n \<le> band_start q r (Suc n)"
    using band_start_step[OF assms(2), of q] assms(1)
    by (smt (verit))
  then show ?thesis using assms(3) by (rule lift_Suc_mono_le)
qed

lemma band_start_last:
  assumes "0 < T" "0 \<le> h"
  shows "band_start (h div T) (h mod T) (nat T) = h"
proof -
  from assms have "h mod T < T" by simp
  with assms have "min T (h mod T) = h mod T" by simp
  with assms show ?thesis by (simp add: band_start_def mult.commute)
qed

lemma consecutive_ranges_union:
  fixes f :: "nat \<Rightarrow> int"
  assumes "\<And>i. f i \<le> f (Suc i)"
  shows "(\<Union>i<n. {f i..<f (Suc i)}) = {f 0..<f n}"
proof (induction n)
  case 0
  then show ?case by simp
next
  case (Suc n)
  have "f 0 \<le> f n" using assms by (rule lift_Suc_mono_le) simp
  with assms[of n] have "{f 0..<f n} \<union> {f n..<f (Suc n)} = {f 0..<f (Suc n)}"
    by auto
  with Suc show ?case by (simp add: lessThan_Suc Un_commute)
qed

lemma consecutive_ranges_disjoint:
  fixes f :: "nat \<Rightarrow> int"
  assumes "\<And>i j. i \<le> j \<Longrightarrow> f i \<le> f j" and "i \<noteq> j"
  shows "{f i..<f (Suc i)} \<inter> {f j..<f (Suc j)} = {}"
proof (cases "i < j")
  case True
  then have "f (Suc i) \<le> f j" by (intro assms(1)) simp
  then show ?thesis by auto
next
  case False
  with assms(2) have "f (Suc j) \<le> f i" by (intro assms(1)) simp
  then show ?thesis by auto
qed

text \<open>
  C2: for a height of at least 1 and at least one thread, the launch loop, when every
  \<open>pthread_create\<close> succeeds, gives one band to each of the \<open>T\<close> threads. With
  \<open>q = height / T\<close> and \<open>r = height % T\<close>, the first \<open>r\<close> bands have \<open>q + 1\<close> rows and
  the others \<open>q\<close>; the first band starts at row 0, each band starts where the band
  before it ends, and the last band ends at \<open>height\<close>. The bands are pairwise disjoint
  half-open ranges, their union is \<open>[0, height)\<close>, and two bands differ in size by at
  most one row.
\<close>

theorem bands_partition_rows:
  assumes "1 \<le> height srcImage" and "c_int (height srcImage)" and "1 \<le> T"
    and "\<forall>i<nat T. rc i = 0"
  shows "\<exists>tds.
           launch rc srcImage algorithm (c_div (height srcImage) T) (c_mod (height srcImage) T) 0
             [0..<nat T] = AllStarted tds \<and>
           length tds = nat T \<and>
           (\<forall>i<nat T. band_size (tds ! i) =
              (if int i < height srcImage mod T then height srcImage div T + 1
               else height srcImage div T)) \<and>
           start_row (tds ! 0) = 0 \<and>
           (\<forall>i. Suc i < nat T \<longrightarrow> start_row (tds ! Suc i) = end_row (tds ! i)) \<and>
           end_row (tds ! (nat T - 1)) = height srcImage \<and>
           (\<forall>i<nat T. \<forall>j<nat T. i \<noteq> j \<longrightarrow> rows_of (tds ! i) \<inter> rows_of (tds ! j) = {}) \<and>
           (\<Union>td\<in>set tds. rows_of td) = {0..<height srcImage} \<and>
           (\<forall>i<nat T. \<forall>j<nat T. \<bar>band_size (tds ! i) - band_size (tds ! j)\<bar> \<le> 1)"
proof -
  let ?h = "height srcImage"
  let ?q = "?h div T" and ?r = "?h mod T"
  let ?tds = "map (nth_band srcImage algorithm ?q ?r 0) [0..<nat T]"
  from assms have q: "0 \<le> ?q" and r: "0 \<le> ?r" "?r < T"
    by (simp_all add: pos_imp_zdiv_nonneg_iff)
  from assms have cd: "c_div ?h T = ?q" "c_mod ?h T = ?r"
    by (simp_all add: c_div_nonneg c_mod_nonneg)
  from assms have "int (nat T) * ?q + ?r = ?h" by (simp add: mult.commute)
  with assms(2) have "0 + int (length [0..<nat T]) * ?q + ?r \<le> 2147483647"
    by (simp add: c_int_def)
  with assms(4) q r(1)
  have l: "launch rc srcImage algorithm ?q ?r 0 [0..<nat T] = AllStarted ?tds"
    using launch_all_started[of "[0..<nat T]" rc ?q ?r 0 srcImage algorithm] by simp
  have len: "length ?tds = nat T" by simp
  have sz: "\<forall>i<nat T. band_size (?tds ! i) = (if int i < ?r then ?q + 1 else ?q)"
    using band_start_step[OF r(1), of ?q] by (simp add: band_size_def nth_band_def)
  from assms(3) have s0: "start_row (?tds ! 0) = 0"
    by (simp add: nth_band_def band_start_0[OF r(1)])
  have cons: "\<forall>i. Suc i < nat T \<longrightarrow> start_row (?tds ! Suc i) = end_row (?tds ! i)"
    by (simp add: nth_band_def)
  from assms have "Suc (nat T - 1) = nat T" by simp
  with assms have e: "end_row (?tds ! (nat T - 1)) = ?h"
    using band_start_last[of T ?h] by (simp add: nth_band_def)
  have rows: "\<And>i. i < nat T \<Longrightarrow>
      rows_of (?tds ! i) = {band_start ?q ?r i..<band_start ?q ?r (Suc i)}"
    by (simp add: rows_of_def nth_band_def)
  have dis: "\<forall>i<nat T. \<forall>j<nat T. i \<noteq> j \<longrightarrow> rows_of (?tds ! i) \<inter> rows_of (?tds ! j) = {}"
  proof (intro allI impI)
    fix i j assume ij: "i < nat T" "j < nat T" "i \<noteq> j"
    have "{band_start ?q ?r i..<band_start ?q ?r (Suc i)} \<inter>
          {band_start ?q ?r j..<band_start ?q ?r (Suc j)} = {}"
      by (rule consecutive_ranges_disjoint[OF _ ij(3)]) (rule band_start_mono[OF q r(1)])
    then show "rows_of (?tds ! i) \<inter> rows_of (?tds ! j) = {}"
      by (simp only: rows[OF ij(1)] rows[OF ij(2)])
  qed
  have "(\<Union>td\<in>set ?tds. rows_of td) =
          (\<Union>i<nat T. {band_start ?q ?r i..<band_start ?q ?r (Suc i)})"
    by (auto simp: rows_of_def nth_band_def)
  also have "\<dots> = {band_start ?q ?r 0..<band_start ?q ?r (nat T)}"
    by (rule consecutive_ranges_union) (simp add: band_start_mono[OF q r(1)])
  also from assms have "\<dots> = {0..<?h}"
    using band_start_last[of T ?h] by (simp add: band_start_0[OF r(1)])
  finally have un: "(\<Union>td\<in>set ?tds. rows_of td) = {0..<?h}" .
  from sz have bal: "\<forall>i<nat T. \<forall>j<nat T. \<bar>band_size (?tds ! i) - band_size (?tds ! j)\<bar> \<le> 1"
    by simp
  from l len sz s0 cons e dis un bal show ?thesis
    unfolding cd by blast
qed

theorem bands_partition_rows_witness:
  "(1 \<le> height two_rows \<and> c_int (height two_rows) \<and> (1::int) \<le> 3 \<and>
    always_created 0 = 0 \<and> always_created 1 = 0 \<and> always_created 2 = 0) \<and>
   (\<exists>tds. launch always_created two_rows IDENTITY (c_div (height two_rows) 3)
            (c_mod (height two_rows) 3) 0 [0..<nat 3] = AllStarted tds \<and>
          length tds = nat 3 \<and>
          (\<Union>td\<in>set tds. rows_of td) = {0..<height two_rows})"
proof -
  have h1: "1 \<le> height two_rows" by (simp add: two_rows_def)
  have h2: "c_int (height two_rows)" by (simp add: two_rows_def c_int_def)
  have h3: "(1::int) \<le> 3" by simp
  have h4: "\<forall>i<nat 3. always_created i = 0" by (simp add: always_created_def)
  obtain tds where
    "launch always_created two_rows IDENTITY (c_div (height two_rows) 3)
       (c_mod (height two_rows) 3) 0 [0..<nat 3] = AllStarted tds"
    "length tds = nat 3"
    "(\<Union>td\<in>set tds. rows_of td) = {0..<height two_rows}"
    using bands_partition_rows[OF h1 h2 h3 h4, of IDENTITY]
    apply (elim exE conjE)
    apply (rule that)
      apply assumption+
    done
  then have "\<exists>tds. launch always_created two_rows IDENTITY (c_div (height two_rows) 3)
            (c_mod (height two_rows) 3) 0 [0..<nat 3] = AllStarted tds \<and>
          length tds = nat 3 \<and>
          (\<Union>td\<in>set tds. rows_of td) = {0..<height two_rows}"
    by (intro exI[of _ tds] conjI)
  moreover have "always_created 0 = 0" "always_created 1 = 0" "always_created 2 = 0"
    by (simp_all add: always_created_def)
  ultimately show ?thesis using h1 h2 h3 by (intro conjI)
qed

subsection \<open>Running loop bodies in any order\<close>

lemma exec_ops_written:
  assumes "distinct (map fst ops)" and "\<forall>(i, v)\<in>set ops. in_buffer buf i \<and> v \<noteq> None"
  shows "exec_ops ops buf = Some (written ops buf)"
  using assms
proof (induction ops arbitrary: buf)
  case Nil
  then show ?case by (simp add: written_def map_nth)
next
  case (Cons p ops)
  obtain i v where p: "p = (i, v)" by (cases p)
  with Cons.prems obtain b where v: "v = Some b" and ib: "in_buffer buf i" by auto
  let ?buf = "buf[nat i := b]"
  from Cons.prems have a: "\<forall>(i, v)\<in>set ops. in_buffer ?buf i \<and> v \<noteq> None"
    by (auto simp: in_buffer_def)
  from Cons.prems have d: "distinct (map fst ops)" by simp
  have IH: "exec_ops ops ?buf = Some (written ops ?buf)" by (rule Cons.IH[OF d a])
  from Cons.prems p have ni: "map_of ops i = None"
    by (simp add: map_of_eq_None_iff)
  have "written ops ?buf = written (p # ops) buf"
    unfolding written_def
  proof (rule nth_equalityI)
    show "length (map (\<lambda>j. case map_of ops (int j) of Some (Some v) \<Rightarrow> v | _ \<Rightarrow> ?buf ! j) [0..<length ?buf]) =
          length (map (\<lambda>j. case map_of (p # ops) (int j) of Some (Some v) \<Rightarrow> v | _ \<Rightarrow> buf ! j) [0..<length buf])"
      by simp
  next
    fix j
    assume "j < length (map (\<lambda>j. case map_of ops (int j) of Some (Some v) \<Rightarrow> v | _ \<Rightarrow> ?buf ! j) [0..<length ?buf])"
    then have j: "j < length buf" by simp
    show "map (\<lambda>j. case map_of ops (int j) of Some (Some v) \<Rightarrow> v | _ \<Rightarrow> ?buf ! j) [0..<length ?buf] ! j =
          map (\<lambda>j. case map_of (p # ops) (int j) of Some (Some v) \<Rightarrow> v | _ \<Rightarrow> buf ! j) [0..<length buf] ! j"
    proof (cases "int j = i")
      case True
      then have "nat i = j" by auto
      with True j ni p v show ?thesis by auto
    next
      case False
      with ib have "nat i \<noteq> j" by (auto simp: in_buffer_def)
      with j False p show ?thesis by (simp split: option.splits)
    qed
  qed
  with IH p v ib show ?case by (simp add: store_def)
qed

lemma written_cong:
  assumes "distinct (map fst ops)" "distinct (map fst ops')" "set ops = set ops'"
  shows "written ops old = written ops' old"
proof -
  from assms have "map_of ops = map_of ops'" by (simp add: map_of_inject_set)
  then show ?thesis by (simp add: written_def)
qed

lemma concat_update_mset:
  assumes "i < length qs" "qs ! i = a # as"
  shows "mset (concat (qs[i := as])) + {#a#} = mset (concat qs)"
proof -
  have "qs = take i qs @ (a # as) # drop (Suc i) qs"
    using id_take_nth_drop[OF assms(1)] assms(2) by simp
  moreover from assms have "qs[i := as] = take i qs @ as # drop (Suc i) qs"
    by (simp add: upd_conv_take_nth_drop)
  ultimately show ?thesis
    by (metis (no_types, lifting) add_mset_add_single concat.simps(2) concat_append mset.simps(2) mset_append union_mset_add_mset_left union_mset_add_mset_right append_Cons)
qed

lemma interleave_mset: "mset (interleave sched qs) = mset (concat qs)"
proof (induction sched arbitrary: qs)
  case Nil
  then show ?case by simp
next
  case (Cons i sched)
  show ?case
  proof (cases "i < length qs")
    case False
    with Cons.IH show ?thesis by simp
  next
    case True
    show ?thesis
    proof (cases "qs ! i")
      case Nil
      with True Cons.IH show ?thesis by simp
    next
      case (Cons a as)
      with True have "interleave (i # sched) qs = a # interleave sched (qs[i := as])" by simp
      with Cons.IH[of "qs[i := as]"] concat_update_mset[OF True Cons] show ?thesis by simp
    qed
  qed
qed

lemma interleave_complete:
  "interleaving qs zs \<Longrightarrow> \<exists>sched. interleave sched qs = zs"
proof (induction rule: interleaving.induct)
  case (finished qs)
  then have "concat qs = []" by simp
  then have "interleave [] qs = []" by simp
  then show ?case by blast
next
  case (step i qs a as zs)
  then obtain sched where "interleave sched (qs[i := as]) = zs" by blast
  with step.hyps(1,2) have "interleave (i # sched) qs = a # zs" by simp
  then show ?case by blast
qed

subsection \<open>The loop bodies of the workers and of the serial fallback\<close>

lemma worker_ops_rows:
  "worker_ops rnd td =
     rows_ops rnd (td_srcImage td) (td_algorithm td) (start_row td) (end_row td)"
  by (simp add: worker_ops_def rows_ops_def)

lemma serial_ops_rows:
  "serial_ops rnd src k = rows_ops rnd src k 0 (height src)"
  by (simp add: serial_ops_def rows_ops_def)

lemma rows_ops_append:
  assumes "a \<le> b" "b \<le> c"
  shows "rows_ops rnd src k a b @ rows_ops rnd src k b c = rows_ops rnd src k a c"
proof (cases "b = c")
  case True
  then show ?thesis by (simp add: rows_ops_def)
next
  case False
  with assms have "[a..c - 1] = [a..b - 1] @ [b..c - 1]"
    by (intro upto_split1) simp_all
  then show ?thesis by (simp add: rows_ops_def)
qed

lemma bands_ops:
  assumes "0 \<le> q" "0 \<le> r"
  shows "concat (map (worker_ops rnd) (map (nth_band src k q r 0) [0..<n])) =
           rows_ops rnd src k 0 (band_start q r n)"
proof (induction n)
  case 0
  from assms show ?case by (simp add: rows_ops_def band_start_0)
next
  case (Suc n)
  have "0 \<le> band_start q r n"
    using band_start_mono[OF assms, of 0 n] by (simp add: band_start_0[OF assms(2)])
  moreover have "band_start q r n \<le> band_start q r (Suc n)"
    by (rule band_start_mono[OF assms]) simp
  ultimately have "rows_ops rnd src k 0 (band_start q r n) @
          rows_ops rnd src k (band_start q r n) (band_start q r (Suc n)) =
        rows_ops rnd src k 0 (band_start q r (Suc n))"
    by (rule rows_ops_append)
  with Suc show ?case by (simp add: worker_ops_rows nth_band_def)
qed

lemma shifted_upto: "map (\<lambda>i. c + i) [0..int n - 1] = [c..c + int n - 1]"
proof (induction n)
  case 0
  then show ?case by simp
next
  case (Suc n)
  have "[0..int (Suc n) - 1] = [0..int n - 1] @ [int n]"
    using upto_rec2[of 0 "int n"] by simp
  moreover have "[c..c + int (Suc n) - 1] = [c..c + int n - 1] @ [c + int n]"
    using upto_rec2[of c "c + int n"] by simp
  ultimately show ?case using Suc by simp
qed

lemma blocks_upto:
  assumes "0 \<le> s"
  shows "concat (map (\<lambda>i. [c + s * i..c + s * i + s - 1]) [0..int n - 1]) = [c..c + s * int n - 1]"
proof (induction n)
  case 0
  then show ?case by simp
next
  case (Suc n)
  have u: "[0..int (Suc n) - 1] = [0..int n - 1] @ [int n]"
    using upto_rec2[of 0 "int n"] by simp
  have "[c..c + s * int n - 1] @ [c + s * int n..c + s * int n + s - 1] =
        [c..c + s * int (Suc n) - 1]"
  proof (cases "s = 0")
    case True
    then show ?thesis by simp
  next
    case False
    with assms have "0 \<le> s * int n" "1 \<le> s" by simp_all
    then have "[c..c + s * int n + s - 1] =
               [c..c + s * int n - 1] @ [c + s * int n..c + s * int n + s - 1]"
      by (intro upto_split1) simp_all
    then show ?thesis by (simp add: algebra_simps)
  qed
  with Suc u show ?case by simp
qed

lemma rows_ops_offsets:
  assumes "0 \<le> width src" "0 \<le> bpp src" "0 \<le> h"
  shows "map fst (rows_ops rnd src k 0 h) = [0..width src * h * bpp src - 1]"
proof -
  let ?w = "width src" and ?b = "bpp src"
  have bits: "map (\<lambda>bt. fst (loop_body rnd src k row pix bt)) [0..?b - 1] =
                [row * ?w * ?b + ?b * pix..row * ?w * ?b + ?b * pix + ?b - 1]" for row pix
  proof -
    from assms have "[0..?b - 1] = [0..int (nat ?b) - 1]" by simp
    then show ?thesis
      using shifted_upto[of "row * ?w * ?b + ?b * pix" "nat ?b"] assms
      by (simp add: loop_body_def Index_def add.assoc)
  qed
  have pixels: "concat (map (\<lambda>pix. map (\<lambda>bt. fst (loop_body rnd src k row pix bt))
                    [0..?b - 1]) [0..?w - 1]) =
                  [0 + (?w * ?b) * row..0 + (?w * ?b) * row + ?w * ?b - 1]" for row
  proof -
    have "concat (map (\<lambda>pix. map (\<lambda>bt. fst (loop_body rnd src k row pix bt))
                    [0..?b - 1]) [0..?w - 1]) =
          concat (map (\<lambda>pix. [row * ?w * ?b + ?b * pix..row * ?w * ?b + ?b * pix + ?b - 1])
            [0..int (nat ?w) - 1])"
      using assms by (simp add: bits)
    also have "\<dots> = [row * ?w * ?b..row * ?w * ?b + ?b * int (nat ?w) - 1]"
      by (rule blocks_upto[OF assms(2)])
    finally show ?thesis
      using assms by (simp add: algebra_simps)
  qed
  from assms have wb: "0 \<le> ?w * ?b" by simp
  have "map fst (rows_ops rnd src k 0 h) =
          concat (map (\<lambda>row. [0 + (?w * ?b) * row..0 + (?w * ?b) * row + ?w * ?b - 1])
            [0..int (nat h) - 1])"
    using assms(3) by (simp add: rows_ops_def map_concat comp_def pixels)
  also have "\<dots> = [0..0 + (?w * ?b) * int (nat h) - 1]"
    by (rule blocks_upto[OF wb])
  finally show ?thesis using assms by (simp add: algebra_simps)
qed

lemma rows_ops_member:
  "(i, v) \<in> set (rows_ops rnd src k 0 h) \<longleftrightarrow>
     (\<exists>x y bt. 0 \<le> y \<and> y < h \<and> 0 \<le> x \<and> x < width src \<and> 0 \<le> bt \<and> bt < bpp src \<and>
        i = Index x y (width src) bt (bpp src) \<and> v = getPixelValue rnd src x y bt k)"
proof
  assume "(i, v) \<in> set (rows_ops rnd src k 0 h)"
  then obtain row pix bt where "row \<in> {0..h - 1}" "pix \<in> {0..width src - 1}"
    "bt \<in> {0..bpp src - 1}" "(i, v) = loop_body rnd src k row pix bt"
    by (auto simp: rows_ops_def)
  then show "\<exists>x y bt. 0 \<le> y \<and> y < h \<and> 0 \<le> x \<and> x < width src \<and> 0 \<le> bt \<and> bt < bpp src \<and>
        i = Index x y (width src) bt (bpp src) \<and> v = getPixelValue rnd src x y bt k"
    by (intro exI[of _ pix] exI[of _ row] exI[of _ bt]) (auto simp: loop_body_def)
next
  assume "\<exists>x y bt. 0 \<le> y \<and> y < h \<and> 0 \<le> x \<and> x < width src \<and> 0 \<le> bt \<and> bt < bpp src \<and>
        i = Index x y (width src) bt (bpp src) \<and> v = getPixelValue rnd src x y bt k"
  then obtain x y bt where c: "y \<in> {0..h - 1}" "x \<in> {0..width src - 1}" "bt \<in> {0..bpp src - 1}"
    and e: "i = Index x y (width src) bt (bpp src)" "v = getPixelValue rnd src x y bt k"
    by auto
  from c(3) e have "(i, v) \<in> (\<lambda>bt. (Index x y (width src) bt (bpp src),
      getPixelValue rnd src x y bt k)) ` {0..bpp src - 1}"
    by blast
  with c(2) have "\<exists>pix\<in>{0..width src - 1}. (i, v) \<in> (\<lambda>bt. (Index pix y (width src) bt (bpp src),
      getPixelValue rnd src pix y bt k)) ` {0..bpp src - 1}"
    by (rule bexI[rotated])
  with c(1) have "\<exists>row\<in>{0..h - 1}. \<exists>pix\<in>{0..width src - 1}.
      (i, v) \<in> (\<lambda>bt. (Index pix row (width src) bt (bpp src),
      getPixelValue rnd src pix row bt k)) ` {0..bpp src - 1}"
    by (rule bexI[rotated])
  then show "(i, v) \<in> set (rows_ops rnd src k 0 h)"
    by (simp add: rows_ops_def loop_body_def)
qed

subsection \<open>The result of convolute\<close>

lemma launch_bands:
  assumes "1 \<le> h" and "c_int h" and "1 \<le> T" and "\<forall>i<nat T. rc i = 0"
  shows "launch rc src k (c_div h T) (c_mod h T) 0 [0..<nat T] =
           AllStarted (map (nth_band src k (h div T) (h mod T) 0) [0..<nat T])"
proof -
  from assms have q: "0 \<le> h div T" and r: "0 \<le> h mod T"
    by (simp_all add: pos_imp_zdiv_nonneg_iff)
  from assms have cd: "c_div h T = h div T" "c_mod h T = h mod T"
    by (simp_all add: c_div_nonneg c_mod_nonneg)
  from assms have "int (nat T) * (h div T) + h mod T = h" by (simp add: mult.commute)
  with assms(2) have "0 + int (length [0..<nat T]) * (h div T) + h mod T \<le> 2147483647"
    by (simp add: c_int_def)
  with assms(4) q r show ?thesis
    unfolding cd
    using launch_all_started[of "[0..<nat T]" rc "h div T" "h mod T" 0 src k] by simp
qed

lemma length_written: "length (written ops old) = length old"
  by (simp add: written_def)

lemma serial_ops_offsets:
  assumes "valid_image src"
  shows "map fst (serial_ops rnd src k) = [0..width src * height src * bpp src - 1]"
  using assms rows_ops_offsets[of src "height src" rnd k]
  by (simp add: serial_ops_rows valid_image_def)

lemma serial_ops_sound:
  assumes "valid_image src" and "width src * height src * bpp src \<le> int (length buf)"
  shows "distinct (map fst (serial_ops rnd src k))"
    and "\<forall>(i, v)\<in>set (serial_ops rnd src k). in_buffer buf i \<and> v \<noteq> None"
proof -
  show "distinct (map fst (serial_ops rnd src k))"
    by (simp add: serial_ops_offsets[OF assms(1)])
  show "\<forall>(i, v)\<in>set (serial_ops rnd src k). in_buffer buf i \<and> v \<noteq> None"
  proof (clarify)
    fix i v assume m: "(i, v) \<in> set (serial_ops rnd src k)"
    then have "i \<in> set (map fst (serial_ops rnd src k))" by force
    with assms have ib: "in_buffer buf i"
      by (simp add: serial_ops_offsets[OF assms(1)] in_buffer_def)
    from m obtain x y bt where "in_image src x y bt" "v = getPixelValue rnd src x y bt k"
      by (auto simp: serial_ops_rows rows_ops_member in_image_def)
    with assms(1) have "v \<noteq> None" by (simp add: getPixelValue_valid)
    with ib show "in_buffer buf i \<and> v \<noteq> None" by simp
  qed
qed

lemma serial_run:
  assumes "valid_image src" and "width src * height src * bpp src \<le> int (length buf)"
  shows "exec_ops (serial_ops rnd src k) buf = Some (written (serial_ops rnd src k) buf)"
  by (rule exec_ops_written[OF serial_ops_sound[OF assms]])

lemma parallel_run:
  assumes "valid_image src" and "width src * height src * bpp src \<le> int (length buf)"
    and "1 \<le> T"
  shows "exec_ops (interleave sched (map (worker_ops rnd)
           (map (nth_band src k (height src div T) (height src mod T) 0) [0..<nat T]))) buf =
         Some (written (serial_ops rnd src k) buf)"
proof -
  let ?par = "interleave sched (map (worker_ops rnd)
           (map (nth_band src k (height src div T) (height src mod T) 0) [0..<nat T]))"
  let ?ser = "serial_ops rnd src k"
  from assms have q: "0 \<le> height src div T" and r: "0 \<le> height src mod T"
    by (simp_all add: pos_imp_zdiv_nonneg_iff valid_image_def)
  from assms have "band_start (height src div T) (height src mod T) (nat T) = height src"
    by (intro band_start_last) (simp_all add: valid_image_def)
  then have "concat (map (worker_ops rnd)
           (map (nth_band src k (height src div T) (height src mod T) 0) [0..<nat T])) = ?ser"
    using bands_ops[OF q r, of rnd src k "nat T"] by (simp add: serial_ops_rows)
  then have m: "mset ?par = mset ?ser"
    by (simp add: interleave_mset)
  then have s: "set ?par = set ?ser" by (rule mset_eq_setD)
  from m have "mset (map fst ?par) = mset (map fst ?ser)" by simp
  then have "distinct (map fst ?par) \<longleftrightarrow> distinct (map fst ?ser)"
    by (rule mset_eq_imp_distinct_iff)
  with serial_ops_sound[OF assms(1,2)] have d: "distinct (map fst ?par)" by simp
  from s serial_ops_sound(2)[OF assms(1,2), of rnd k]
  have "\<forall>(i, v)\<in>set ?par. in_buffer buf i \<and> v \<noteq> None" by simp
  with d have "exec_ops ?par buf = Some (written ?par buf)" by (rule exec_ops_written)
  also have "written ?par buf = written ?ser buf"
    by (rule written_cong[OF d serial_ops_sound(1)[OF assms(1,2)] s])
  finally show ?thesis .
qed

lemma convolute_returns:
  assumes "valid_image src"
    and "width src * height src * bpp src \<le> int (length (data dest))"
    and "\<not> malloc_ok e \<or> (1 \<le> num_threads e \<and> (\<forall>i<nat (num_threads e). create_rc e i = 0))"
  shows "snd (convolute rnd e src dest k) =
           Returned (dest\<lparr>data := written (serial_ops rnd src k) (data dest)\<rparr>)"
proof (cases "malloc_ok e")
  case False
  then show ?thesis
    by (simp add: convolute_def Let_def finish_def serial_run[OF assms(1,2)])
next
  case True
  with assms(3) have T: "1 \<le> num_threads e" and rc: "\<forall>i<nat (num_threads e). create_rc e i = 0"
    by simp_all
  from assms(1) have h: "1 \<le> height src" "c_int (height src)"
    by (simp_all add: valid_image_def)
  from True T show ?thesis
    using parallel_run[OF assms(1,2) T, of "schedule e" rnd k]
    by (simp add: convolute_def Let_def finish_def launch_bands[OF h T rc])
qed

lemma written_pixel:
  assumes "valid_image src" and "width src * height src * bpp src \<le> int (length old)"
    and "in_image src x y bt"
  shows "getPixelValue rnd src x y bt k =
           Some (written (serial_ops rnd src k) old ! nat (Index x y (width src) bt (bpp src)))"
proof -
  let ?i = "Index x y (width src) bt (bpp src)"
  from assms(3) have b: "0 \<le> ?i" "?i < width src * height src * bpp src"
    using Index_bounds[of x "width src" y "height src" bt "bpp src"]
    by (simp_all add: in_image_def)
  from assms(3) have "(?i, getPixelValue rnd src x y bt k) \<in> set (serial_ops rnd src k)"
    by (auto simp: serial_ops_rows rows_ops_member in_image_def)
  with serial_ops_sound(1)[OF assms(1,2)]
  have "map_of (serial_ops rnd src k) ?i = Some (getPixelValue rnd src x y bt k)"
    by (rule map_of_is_SomeI)
  moreover from assms obtain v where "getPixelValue rnd src x y bt k = Some v"
    by (auto simp: getPixelValue_valid)
  moreover from b assms(2) have "nat ?i < length old" by simp
  ultimately show ?thesis using b by (simp add: written_def)
qed


lemma fixtures_valid:
  "valid_image two_rows" "valid_image two_rows_dest" "same_shape two_rows two_rows_dest"
  by (simp_all add: valid_image_def same_shape_def two_rows_def two_rows_dest_def c_int_def)

lemma same_shape_size:
  "valid_image src \<Longrightarrow> valid_image dest \<Longrightarrow> same_shape src dest \<Longrightarrow>
     width src * height src * bpp src \<le> int (length (data dest))"
  by (simp add: valid_image_def same_shape_def)

text \<open>
  C1: for a valid source image, a valid destination of the same shape and any kernel,
  the multi-threaded path of \<open>convolute\<close> (the allocations and every
  \<open>pthread_create\<close> succeed, with any number of threads from 1 on and any schedule,
  hence any interleaving of the workers' steps) and the serial fallback loop (the allocation fails) return the
  same destination buffer. In both, the byte at \<open>Index(column, row, width, channel, bpp)\<close>
  is \<open>getPixelValue(src, column, row, channel, kernel)\<close>, for every row, column and
  channel of the image.
\<close>

theorem parallel_equals_serial:
  assumes "valid_image srcImage" and "valid_image destImage" and "same_shape srcImage destImage"
    and "malloc_ok par" and "1 \<le> num_threads par"
    and "\<forall>i<nat (num_threads par). create_rc par i = 0"
    and "\<not> malloc_ok ser"
  shows "\<exists>out.
           snd (convolute rnd par srcImage destImage algorithm) = Returned (destImage\<lparr>data := out\<rparr>) \<and>
           snd (convolute rnd ser srcImage destImage algorithm) = Returned (destImage\<lparr>data := out\<rparr>) \<and>
           length out = length (data destImage) \<and>
           (\<forall>x y bt. in_image srcImage x y bt \<longrightarrow>
              getPixelValue rnd srcImage x y bt algorithm =
                Some (out ! nat (Index x y (width srcImage) bt (bpp srcImage))))"
proof -
  let ?out = "written (serial_ops rnd srcImage algorithm) (data destImage)"
  note sz = same_shape_size[OF assms(1,2,3)]
  from assms(5,6) have
    "snd (convolute rnd par srcImage destImage algorithm) = Returned (destImage\<lparr>data := ?out\<rparr>)"
    by (intro convolute_returns[OF assms(1) sz]) simp
  moreover from assms(7) have
    "snd (convolute rnd ser srcImage destImage algorithm) = Returned (destImage\<lparr>data := ?out\<rparr>)"
    by (intro convolute_returns[OF assms(1) sz]) simp
  moreover have "length ?out = length (data destImage)"
    by (rule length_written)
  moreover have "\<forall>x y bt. in_image srcImage x y bt \<longrightarrow>
              getPixelValue rnd srcImage x y bt algorithm =
                Some (?out ! nat (Index x y (width srcImage) bt (bpp srcImage)))"
    using written_pixel[OF assms(1) sz] by blast
  ultimately show ?thesis by (intro exI[of _ ?out] conjI)
qed

theorem parallel_equals_serial_witness:
  "(valid_image two_rows \<and> valid_image two_rows_dest \<and> same_shape two_rows two_rows_dest \<and>
    malloc_ok two_workers_env \<and> 1 \<le> num_threads two_workers_env \<and>
    \<not> malloc_ok query_failed_env) \<and>
   snd (convolute exact two_workers_env two_rows two_rows_dest SHARPEN) =
   snd (convolute exact query_failed_env two_rows two_rows_dest SHARPEN)"
proof -
  have h4: "malloc_ok two_workers_env" by (simp add: two_workers_env_def)
  have h5: "1 \<le> num_threads two_workers_env"
    by (simp add: two_workers_env_def num_threads_def s32_def)
  have h6: "\<forall>i<nat (num_threads two_workers_env). create_rc two_workers_env i = 0"
    by (simp add: two_workers_env_def always_created_def)
  have h7: "\<not> malloc_ok query_failed_env" by (simp add: query_failed_env_def)
  obtain out where
    "snd (convolute exact two_workers_env two_rows two_rows_dest SHARPEN) =
       Returned (two_rows_dest\<lparr>data := out\<rparr>)"
    "snd (convolute exact query_failed_env two_rows two_rows_dest SHARPEN) =
       Returned (two_rows_dest\<lparr>data := out\<rparr>)"
    using parallel_equals_serial[OF fixtures_valid h4 h5 h6 h7, of exact SHARPEN]
    apply (elim exE conjE)
    apply (rule that)
     apply assumption+
    done
  then have "snd (convolute exact two_workers_env two_rows two_rows_dest SHARPEN) =
   snd (convolute exact query_failed_env two_rows two_rows_dest SHARPEN)"
    by simp
  with fixtures_valid h4 h5 h6 h7 show ?thesis by (intro conjI)
qed

text \<open>
  C8: for a valid source image, degenerate or not, a valid destination of the same
  shape and any kernel, every access is in bounds. At every pixel and channel of the
  image, the nine offsets that \<open>getPixelValue\<close> reads and the offset that the worker
  writes are in \<open>[0, width * height * bpp)\<close>, which is the size of both buffers; no
  loop body leaves a buffer; and \<open>convolute\<close>, on the serial path and on the
  multi-threaded path with every worker created, ends without undefined behaviour.
\<close>

theorem accesses_in_bounds:
  assumes "valid_image srcImage" and "valid_image destImage" and "same_shape srcImage destImage"
    and "\<not> malloc_ok e \<or> (1 \<le> num_threads e \<and> (\<forall>i<nat (num_threads e). create_rc e i = 0))"
  shows "(\<forall>x y bt. in_image srcImage x y bt \<longrightarrow>
            (\<forall>i\<in>set (read_offsets srcImage x y bt).
               0 \<le> i \<and> i < width srcImage * height srcImage * bpp srcImage) \<and>
            0 \<le> Index x y (width srcImage) bt (bpp srcImage) \<and>
            Index x y (width srcImage) bt (bpp srcImage) <
              width srcImage * height srcImage * bpp srcImage \<and>
            getPixelValue rnd srcImage x y bt algorithm \<noteq> None) \<and>
         (\<forall>(i, v)\<in>set (serial_ops rnd srcImage algorithm).
            in_buffer (data destImage) i \<and> v \<noteq> None) \<and>
         snd (convolute rnd e srcImage destImage algorithm) \<noteq> Undefined"
proof -
  note sz = same_shape_size[OF assms(1,2,3)]
  have a: "\<forall>x y bt. in_image srcImage x y bt \<longrightarrow>
            (\<forall>i\<in>set (read_offsets srcImage x y bt).
               0 \<le> i \<and> i < width srcImage * height srcImage * bpp srcImage) \<and>
            0 \<le> Index x y (width srcImage) bt (bpp srcImage) \<and>
            Index x y (width srcImage) bt (bpp srcImage) <
              width srcImage * height srcImage * bpp srcImage \<and>
            getPixelValue rnd srcImage x y bt algorithm \<noteq> None"
  proof (intro allI impI)
    fix x y bt assume i: "in_image srcImage x y bt"
    then have "0 \<le> Index x y (width srcImage) bt (bpp srcImage)"
      "Index x y (width srcImage) bt (bpp srcImage) < width srcImage * height srcImage * bpp srcImage"
      using Index_bounds[of x "width srcImage" y "height srcImage" bt "bpp srcImage"]
      by (simp_all add: in_image_def)
    moreover have "\<forall>i\<in>set (read_offsets srcImage x y bt).
               0 \<le> i \<and> i < width srcImage * height srcImage * bpp srcImage"
      using read_offsets_in_bounds[OF assms(1) i] by blast
    moreover have "getPixelValue rnd srcImage x y bt algorithm \<noteq> None"
      by (simp add: getPixelValue_valid[OF assms(1) i])
    ultimately show "(\<forall>i\<in>set (read_offsets srcImage x y bt).
               0 \<le> i \<and> i < width srcImage * height srcImage * bpp srcImage) \<and>
            0 \<le> Index x y (width srcImage) bt (bpp srcImage) \<and>
            Index x y (width srcImage) bt (bpp srcImage) <
              width srcImage * height srcImage * bpp srcImage \<and>
            getPixelValue rnd srcImage x y bt algorithm \<noteq> None"
      by (intro conjI)
  qed
  have b: "\<forall>(i, v)\<in>set (serial_ops rnd srcImage algorithm).
            in_buffer (data destImage) i \<and> v \<noteq> None"
    by (rule serial_ops_sound(2)[OF assms(1) sz])
  have c: "snd (convolute rnd e srcImage destImage algorithm) \<noteq> Undefined"
    by (simp add: convolute_returns[OF assms(1) sz assms(4)])
  from a b c show ?thesis by (intro conjI)
qed

theorem accesses_in_bounds_witness:
  "(valid_image two_rows \<and> valid_image two_rows_dest \<and> same_shape two_rows two_rows_dest \<and>
    malloc_ok two_workers_env \<and> 1 \<le> num_threads two_workers_env \<and>
    in_image two_rows 0 1 0) \<and>
   read_offsets two_rows 0 1 0 = [0, 0, 0, 1, 1, 1, 1, 1, 1] \<and>
   list_all (\<lambda>i. 0 \<le> i \<and> i < 2) (read_offsets two_rows 0 1 0) \<and>
   snd (convolute exact two_workers_env two_rows two_rows_dest EMBOSS) \<noteq> Undefined"
proof -
  have h4: "\<not> malloc_ok two_workers_env \<or> (1 \<le> num_threads two_workers_env \<and>
       (\<forall>i<nat (num_threads two_workers_env). create_rc two_workers_env i = 0))"
    by (simp add: two_workers_env_def always_created_def num_threads_def s32_def)
  have i: "in_image two_rows 0 1 0" by (simp add: in_image_def two_rows_def)
  note t = accesses_in_bounds[OF fixtures_valid h4, of exact EMBOSS]
  from t have u: "snd (convolute exact two_workers_env two_rows two_rows_dest EMBOSS) \<noteq> Undefined"
    by (elim conjE)
  from t have "\<forall>x y bt. in_image two_rows x y bt \<longrightarrow>
            (\<forall>i\<in>set (read_offsets two_rows x y bt).
               0 \<le> i \<and> i < width two_rows * height two_rows * bpp two_rows) \<and>
            0 \<le> Index x y (width two_rows) bt (bpp two_rows) \<and>
            Index x y (width two_rows) bt (bpp two_rows) <
              width two_rows * height two_rows * bpp two_rows \<and>
            getPixelValue exact two_rows x y bt EMBOSS \<noteq> None"
    by (elim conjE)
  with i have "\<forall>i\<in>set (read_offsets two_rows 0 1 0).
               0 \<le> i \<and> i < width two_rows * height two_rows * bpp two_rows"
    by blast
  moreover have "width two_rows * height two_rows * bpp two_rows = 2"
    by (simp add: two_rows_def)
  ultimately have "\<forall>i\<in>set (read_offsets two_rows 0 1 0). 0 \<le> i \<and> i < 2" by simp
  moreover have m: "malloc_ok two_workers_env" "1 \<le> num_threads two_workers_env"
    by (simp_all add: two_workers_env_def num_threads_def s32_def)
  moreover have ro: "read_offsets two_rows 0 1 0 = [0, 0, 0, 1, 1, 1, 1, 1, 1]"
    by (simp add: read_offsets_def neighbours_def s32_def two_rows_def Index_def)
  ultimately have "list_all (\<lambda>i. 0 \<le> i \<and> i < 2) (read_offsets two_rows 0 1 0)"
    by (simp add: list_all_iff)
  with fixtures_valid m ro i u show ?thesis by (intro conjI)
qed

subsection \<open>More threads than rows\<close>

lemma bands_concat_serial:
  assumes "valid_image src" and "1 \<le> T"
  shows "concat (map (worker_ops rnd)
           (map (nth_band src k (height src div T) (height src mod T) 0) [0..<nat T])) =
         serial_ops rnd src k"
proof -
  from assms have q: "0 \<le> height src div T" and r: "0 \<le> height src mod T"
    by (simp_all add: pos_imp_zdiv_nonneg_iff valid_image_def)
  from assms have "band_start (height src div T) (height src mod T) (nat T) = height src"
    by (intro band_start_last) (simp_all add: valid_image_def)
  then show ?thesis
    using bands_ops[OF q r, of rnd src k "nat T"] by (simp add: serial_ops_rows)
qed

lemma empty_band_no_ops:
  "end_row td \<le> start_row td \<Longrightarrow> worker_ops rnd td = []"
  by (simp add: worker_ops_def)

text \<open>
  C10: when there are more threads than rows (and every worker is created), the bands
  of the first \<open>height\<close> workers are the single rows \<open>0\<close>, ..., \<open>height - 1\<close>, and every
  later worker has an empty band, \<open>start_row = end_row\<close>. A worker with an empty band
  runs no loop body: it reads and writes nothing and leaves the destination as it is.
  Every row of the image is in the band of exactly one worker, every offset of the
  destination is written exactly once by all workers together, and the call returns
  with every pixel and channel written.
\<close>

theorem more_threads_than_rows:
  assumes "valid_image srcImage" and "valid_image destImage" and "same_shape srcImage destImage"
    and "malloc_ok e" and "height srcImage < num_threads e"
    and "\<forall>i<nat (num_threads e). create_rc e i = 0"
  shows "\<exists>tds.
           launch (create_rc e) srcImage algorithm (c_div (height srcImage) (num_threads e))
             (c_mod (height srcImage) (num_threads e)) 0 [0..<nat (num_threads e)] =
             AllStarted tds \<and>
           length tds = nat (num_threads e) \<and>
           (\<forall>i<nat (num_threads e). height srcImage \<le> int i \<longrightarrow>
              start_row (tds ! i) = end_row (tds ! i) \<and> worker_ops rnd (tds ! i) = [] \<and>
              (\<forall>buf. convolute_thread_worker rnd (tds ! i) buf = Some buf)) \<and>
           (\<forall>i<nat (num_threads e). int i < height srcImage \<longrightarrow> rows_of (tds ! i) = {int i}) \<and>
           (\<forall>row. 0 \<le> row \<and> row < height srcImage \<longrightarrow>
              (\<exists>!i. i < nat (num_threads e) \<and> row \<in> rows_of (tds ! i))) \<and>
           distinct (map fst (concat (map (worker_ops rnd) tds))) \<and>
           set (map fst (concat (map (worker_ops rnd) tds))) =
             {0..<width srcImage * height srcImage * bpp srcImage} \<and>
           (\<exists>out. snd (convolute rnd e srcImage destImage algorithm) =
                    Returned (destImage\<lparr>data := out\<rparr>) \<and>
                  (\<forall>x y bt. in_image srcImage x y bt \<longrightarrow>
                     getPixelValue rnd srcImage x y bt algorithm =
                       Some (out ! nat (Index x y (width srcImage) bt (bpp srcImage)))))"
proof -
  let ?h = "height srcImage" and ?T = "num_threads e"
  let ?tds = "map (nth_band srcImage algorithm (?h div ?T) (?h mod ?T) 0) [0..<nat ?T]"
  let ?out = "written (serial_ops rnd srcImage algorithm) (data destImage)"
  from assms(1) have h: "1 \<le> ?h" "c_int ?h" by (simp_all add: valid_image_def)
  with assms(5) have T: "1 \<le> ?T" by simp
  from h assms(5) have qr: "?h div ?T = 0" "?h mod ?T = ?h" by simp_all
  note sz = same_shape_size[OF assms(1,2,3)]
  have st: "start_row (?tds ! i) = min (int i) ?h" "end_row (?tds ! i) = min (int i + 1) ?h"
    if "i < nat ?T" for i
    using that by (simp_all add: nth_band_def band_start_def qr)
  have l: "launch (create_rc e) srcImage algorithm (c_div ?h ?T) (c_mod ?h ?T) 0 [0..<nat ?T] =
             AllStarted ?tds"
    by (rule launch_bands[OF h T assms(6)])
  have len: "length ?tds = nat ?T" by simp
  have idle: "\<forall>i<nat ?T. ?h \<le> int i \<longrightarrow>
              start_row (?tds ! i) = end_row (?tds ! i) \<and> worker_ops rnd (?tds ! i) = [] \<and>
              (\<forall>buf. convolute_thread_worker rnd (?tds ! i) buf = Some buf)"
  proof (intro allI impI)
    fix i assume i: "i < nat ?T" "?h \<le> int i"
    have eq: "start_row (?tds ! i) = end_row (?tds ! i)"
      unfolding st[OF i(1)] using i(2) by simp
    then have "worker_ops rnd (?tds ! i) = []" by (intro empty_band_no_ops) simp
    with eq show "start_row (?tds ! i) = end_row (?tds ! i) \<and> worker_ops rnd (?tds ! i) = [] \<and>
              (\<forall>buf. convolute_thread_worker rnd (?tds ! i) buf = Some buf)"
      by (simp add: convolute_thread_worker_def)
  qed
  have rows: "rows_of (?tds ! i) = (if int i < ?h then {int i} else {})" if "i < nat ?T" for i
    unfolding rows_of_def st[OF that] by auto
  from rows have busy: "\<forall>i<nat ?T. int i < ?h \<longrightarrow> rows_of (?tds ! i) = {int i}"
    by simp
  have once: "\<forall>row. 0 \<le> row \<and> row < ?h \<longrightarrow> (\<exists>!i. i < nat ?T \<and> row \<in> rows_of (?tds ! i))"
  proof (intro allI impI)
    fix row assume r: "0 \<le> row \<and> row < ?h"
    with assms(5) have n: "nat row < nat ?T" by simp
    show "\<exists>!i. i < nat ?T \<and> row \<in> rows_of (?tds ! i)"
    proof (rule ex1I[of _ "nat row"])
      show "nat row < nat ?T \<and> row \<in> rows_of (?tds ! nat row)"
        unfolding rows[OF n] using r n by simp
    next
      fix i assume i: "i < nat ?T \<and> row \<in> rows_of (?tds ! i)"
      from i have i1: "i < nat ?T" by (rule conjunct1)
      from i have "row \<in> rows_of (?tds ! i)" by (rule conjunct2)
      then have "row \<in> (if int i < ?h then {int i} else {})"
        unfolding rows[OF i1] .
      then show "i = nat row" by (auto split: if_splits)
    qed
  qed
  have cs: "concat (map (worker_ops rnd) ?tds) = serial_ops rnd srcImage algorithm"
    by (rule bands_concat_serial[OF assms(1) T])
  have d: "distinct (map fst (concat (map (worker_ops rnd) ?tds)))"
    unfolding cs by (simp add: serial_ops_offsets[OF assms(1)])
  have s: "set (map fst (concat (map (worker_ops rnd) ?tds))) =
             {0..<width srcImage * height srcImage * bpp srcImage}"
    unfolding cs by (auto simp: serial_ops_offsets[OF assms(1)])
  from assms(4,6) T have
    "snd (convolute rnd e srcImage destImage algorithm) = Returned (destImage\<lparr>data := ?out\<rparr>)"
    by (intro convolute_returns[OF assms(1) sz]) simp
  moreover have "\<forall>x y bt. in_image srcImage x y bt \<longrightarrow>
              getPixelValue rnd srcImage x y bt algorithm =
                Some (?out ! nat (Index x y (width srcImage) bt (bpp srcImage)))"
    using written_pixel[OF assms(1) sz] by blast
  ultimately have r: "\<exists>out. snd (convolute rnd e srcImage destImage algorithm) =
                    Returned (destImage\<lparr>data := out\<rparr>) \<and>
                  (\<forall>x y bt. in_image srcImage x y bt \<longrightarrow>
                     getPixelValue rnd srcImage x y bt algorithm =
                       Some (out ! nat (Index x y (width srcImage) bt (bpp srcImage))))"
    by (intro exI[of _ ?out] conjI)
  from l len idle busy once d s r show ?thesis
    by (intro exI[of _ ?tds] conjI)
qed

theorem more_threads_than_rows_witness:
  "(valid_image two_rows \<and> valid_image two_rows_dest \<and> same_shape two_rows two_rows_dest \<and>
    malloc_ok three_workers_env \<and> height two_rows < num_threads three_workers_env) \<and>
   (\<exists>out. snd (convolute exact three_workers_env two_rows two_rows_dest SHARPEN) =
            Returned (two_rows_dest\<lparr>data := out\<rparr>))"
proof -
  have h4: "malloc_ok three_workers_env" by (simp add: three_workers_env_def)
  have h5: "height two_rows < num_threads three_workers_env"
    by (simp add: three_workers_env_def num_threads_def s32_def two_rows_def)
  have h6: "\<forall>i<nat (num_threads three_workers_env). create_rc three_workers_env i = 0"
    by (simp add: three_workers_env_def always_created_def)
  have "\<exists>out. snd (convolute exact three_workers_env two_rows two_rows_dest SHARPEN) =
            Returned (two_rows_dest\<lparr>data := out\<rparr>)"
    using more_threads_than_rows[OF fixtures_valid h4 h5 h6, of SHARPEN exact]
    by (elim exE conjE) (rule exI)
  with fixtures_valid h4 h5 show ?thesis by (intro conjI)
qed

subsection \<open>The identity kernel\<close>

lemma exact_exact: "exact_on_ints exact"
  by (simp add: exact_on_ints_def exact_def)

lemma exact_int: "exact_on_ints rnd \<Longrightarrow> \<bar>z\<bar> \<le> 9007199254740992 \<Longrightarrow> rnd (of_int z) = of_int z"
  by (simp add: exact_on_ints_def)

lemma exact_zero: "exact_on_ints rnd \<Longrightarrow> rnd 0 = 0"
  using exact_int[of rnd 0] by simp

lemma byte_range: "unat (d::byte) < 256"
  using unsigned_less[of d, where 'a=nat] by simp

lemma exact_byte: "exact_on_ints rnd \<Longrightarrow> rnd (to_double d) = to_double d"
proof -
  assume e: "exact_on_ints rnd"
  from byte_range[of d] have "\<bar>int (unat d)\<bar> \<le> 9007199254740992"
    by (simp del: of_nat_unat)
  from exact_int[OF e this] show ?thesis by (simp add: to_double_def del: of_nat_unat)
qed

lemma to_double_range: "0 \<le> to_double d \<and> to_double d \<le> 255"
  using byte_range[of d] by (simp add: to_double_def del: of_nat_unat)

lemma to_uint8_to_double: "to_uint8 (clamp255 (to_double d)) = d"
proof -
  from to_double_range[of d] have "clamp255 (to_double d) = to_double d"
    by (simp add: clamp255_def)
  moreover have "word_of_int \<lfloor>real (unat d)\<rfloor> = d"
    by (simp only: floor_of_nat) simp
  ultimately show ?thesis by (simp add: to_uint8_def to_double_def del: of_nat_unat)
qed

lemma weighted_sum_identity:
  assumes "exact_on_ints rnd"
  shows "weighted_sum rnd IDENTITY [d00, d01, d02, d10, d11, d12, d20, d21, d22] = to_double d11"
  by (simp add: IDENTITY_def fadd_def fmul_def exact_zero[OF assms] exact_byte[OF assms])

lemma identity_pixel:
  assumes "exact_on_ints rnd" and "valid_image img" and "in_image img x y bt"
  shows "getPixelValue rnd img x y bt IDENTITY =
           Some (data img ! nat (Index x y (width img) bt (bpp img)))"
proof -
  obtain mx my px py where n: "neighbours img x y = (mx, my, px, py)"
    by (cases "neighbours img x y") auto
  show ?thesis
    by (simp add: getPixelValue_valid[OF assms(2,3)] read_offsets_def n
        weighted_sum_identity[OF assms(1)] to_uint8_to_double)
qed

lemma offset_is_Index:
  assumes "valid_image img" and "0 \<le> j" and "j < width img * height img * bpp img"
  shows "\<exists>x y bt. in_image img x y bt \<and> j = Index x y (width img) bt (bpp img)"
proof -
  from assms(2,3) have "j \<in> set (map fst (serial_ops exact img IDENTITY))"
    by (simp add: serial_ops_offsets[OF assms(1)])
  then obtain v where "(j, v) \<in> set (serial_ops exact img IDENTITY)" by auto
  then show ?thesis
    by (auto simp: serial_ops_rows rows_ops_member in_image_def)
qed

lemma written_identity:
  assumes "exact_on_ints rnd" and "valid_image src"
    and "int (length old) = width src * height src * bpp src"
  shows "written (serial_ops rnd src IDENTITY) old = data src"
proof (rule nth_equalityI)
  from assms(2,3) show "length (written (serial_ops rnd src IDENTITY) old) = length (data src)"
    by (simp add: length_written valid_image_def)
next
  fix j assume "j < length (written (serial_ops rnd src IDENTITY) old)"
  with assms(3) have j: "0 \<le> int j" "int j < width src * height src * bpp src"
    by (simp_all add: length_written)
  from offset_is_Index[OF assms(2) j] obtain x y bt where
    i: "in_image src x y bt" and e: "int j = Index x y (width src) bt (bpp src)" by blast
  from assms(3) have "width src * height src * bpp src \<le> int (length old)" by simp
  from written_pixel[OF assms(2) this i, of rnd IDENTITY] identity_pixel[OF assms(1,2) i]
  have "written (serial_ops rnd src IDENTITY) old ! nat (Index x y (width src) bt (bpp src)) =
        data src ! nat (Index x y (width src) bt (bpp src))"
    by simp
  with e[symmetric] show "written (serial_ops rnd src IDENTITY) old ! j = data src ! j"
    by simp
qed

text \<open>
  C5: for a valid source image and a valid destination of the same shape, convolving
  with the identity kernel returns a destination whose buffer is the source buffer,
  byte for byte. The rounding function may be any that leaves small integers
  unchanged, as IEEE rounding does.
\<close>

theorem identity_kernel_copies:
  assumes "exact_on_ints rnd"
    and "valid_image srcImage" and "valid_image destImage" and "same_shape srcImage destImage"
    and "\<not> malloc_ok e \<or> (1 \<le> num_threads e \<and> (\<forall>i<nat (num_threads e). create_rc e i = 0))"
  shows "snd (convolute rnd e srcImage destImage IDENTITY) =
           Returned (destImage\<lparr>data := data srcImage\<rparr>)"
proof -
  note sz = same_shape_size[OF assms(2,3,4)]
  from assms(2,3,4) have "int (length (data destImage)) =
      width srcImage * height srcImage * bpp srcImage"
    by (simp add: valid_image_def same_shape_def)
  then have "written (serial_ops rnd srcImage IDENTITY) (data destImage) = data srcImage"
    by (rule written_identity[OF assms(1,2)])
  then show ?thesis
    by (simp add: convolute_returns[OF assms(2) sz assms(5)])
qed

theorem identity_kernel_copies_witness:
  "(exact_on_ints exact \<and> valid_image two_rows \<and> valid_image two_rows_dest \<and>
    same_shape two_rows two_rows_dest \<and>
    malloc_ok two_workers_env \<and> 1 \<le> num_threads two_workers_env) \<and>
   snd (convolute exact two_workers_env two_rows two_rows_dest IDENTITY) =
     Returned \<lparr>data = [10, 20], width = 1, height = 2, bpp = 1\<rparr>"
proof -
  have h5: "\<not> malloc_ok two_workers_env \<or> (1 \<le> num_threads two_workers_env \<and>
       (\<forall>i<nat (num_threads two_workers_env). create_rc two_workers_env i = 0))"
    by (simp add: two_workers_env_def always_created_def num_threads_def s32_def)
  from identity_kernel_copies[OF exact_exact fixtures_valid h5]
  have "snd (convolute exact two_workers_env two_rows two_rows_dest IDENTITY) =
     Returned \<lparr>data = [10, 20], width = 1, height = 2, bpp = 1\<rparr>"
    by (simp add: two_rows_def two_rows_dest_def)
  moreover have "malloc_ok two_workers_env" "1 \<le> num_threads two_workers_env"
    by (simp_all add: two_workers_env_def num_threads_def s32_def)
  ultimately show ?thesis using exact_exact fixtures_valid by (intro conjI)
qed

subsection \<open>Clamping: the sharpen kernel on a single bright pixel\<close>

lemma spike_valid: "0 \<le> cx \<Longrightarrow> cx < 4 \<Longrightarrow> 0 \<le> cy \<Longrightarrow> cy < 4 \<Longrightarrow> valid_image (spike cx cy)"
  by (simp add: valid_image_def spike_def c_int_def)

lemma spot_at:
  assumes "0 \<le> cx" "cx < 4" "0 \<le> cy" "cy < 4" "0 \<le> x" "x < 4" "0 \<le> y" "y < 4"
  shows "(replicate 16 0)[nat (4 * cy + cx) := v] ! nat (Index x y 4 0 1) =
           (if x = cx \<and> y = cy then v else (0::byte))"
proof (cases "x = cx \<and> y = cy")
  case True
  from assms have "nat (4 * cy + cx) < 16" by simp
  with True show ?thesis
    by (simp add: Index_def mult.commute)
next
  case False
  from assms have "nat (4 * y + x) < 16" by simp
  moreover from assms False have "4 * cy + cx \<noteq> 4 * y + x" by presburger
  with assms have "nat (4 * cy + cx) \<noteq> nat (4 * y + x)"
    by (simp add: eq_nat_nat_iff)
  ultimately have "(replicate 16 0)[nat (4 * cy + cx) := v] ! nat (Index x y 4 0 1) = 0"
    by (simp add: Index_def mult.commute)
  with False show ?thesis by auto
qed

lemma sharpen_sum:
  assumes e: "exact_on_ints rnd"
  shows "weighted_sum rnd SHARPEN [d00, d01, d02, d10, d11, d12, d20, d21, d22] =
           5 * to_double d11 - to_double d01 - to_double d10 - to_double d12 - to_double d21"
proof -
  define i01 i10 i11 i12 i21 where
    i: "i01 = int (unat d01)" "i10 = int (unat d10)" "i11 = int (unat d11)"
       "i12 = int (unat d12)" "i21 = int (unat d21)"
  have b: "0 \<le> i01 \<and> i01 \<le> 255" "0 \<le> i10 \<and> i10 \<le> 255" "0 \<le> i11 \<and> i11 \<le> 255"
    "0 \<le> i12 \<and> i12 \<le> 255" "0 \<le> i21 \<and> i21 \<le> 255"
    using byte_range[of d01] byte_range[of d10] byte_range[of d11] byte_range[of d12]
      byte_range[of d21]
    by (simp_all add: i del: of_nat_unat)
  have td: "to_double d01 = of_int i01" "to_double d10 = of_int i10" "to_double d11 = of_int i11"
    "to_double d12 = of_int i12" "to_double d21 = of_int i21"
    by (simp_all add: to_double_def i del: of_nat_unat)
  have r: "rnd (of_int z) = of_int z" if "\<bar>z\<bar> \<le> 3000" for z
    using exact_int[OF e, of z] that by simp
  note z = exact_zero[OF e]
  from b have p: "rnd (of_int (- i01)) = of_int (- i01)" "rnd (of_int (- i10)) = of_int (- i10)"
    "rnd (of_int (5 * i11)) = of_int (5 * i11)" "rnd (of_int (- i12)) = of_int (- i12)"
    "rnd (of_int (- i21)) = of_int (- i21)"
    by (intro r; linarith)+
  from b have s: "rnd (of_int (- i01 + - i10)) = of_int (- i01 + - i10)"
    "rnd (of_int (- i01 + - i10 + 5 * i11)) = of_int (- i01 + - i10 + 5 * i11)"
    "rnd (of_int (- i01 + - i10 + 5 * i11 + - i12)) = of_int (- i01 + - i10 + 5 * i11 + - i12)"
    "rnd (of_int (- i01 + - i10 + 5 * i11 + - i12 + - i21)) =
       of_int (- i01 + - i10 + 5 * i11 + - i12 + - i21)"
    by (intro r; linarith)+
  show ?thesis
    using p s by (simp add: SHARPEN_def fadd_def fmul_def td z)
qed


lemma spike_result:
  assumes e: "exact_on_ints rnd" and c: "cx = 1 \<or> cx = 2" "cy = 1 \<or> cy = 2"
    and i: "in_image (spike cx cy) x y 0"
  shows "result_double rnd (spike cx cy) x y 0 SHARPEN =
           Some (if x = cx \<and> y = cy then 500
                 else if \<bar>x - cx\<bar> + \<bar>y - cy\<bar> = 1 then - 100 else 0)"
proof -
  from c have cb: "0 \<le> cx" "cx < 4" "0 \<le> cy" "cy < 4" by auto
  from i have xy: "0 \<le> x" "x < 4" "0 \<le> y" "y < 4"
    by (simp_all add: in_image_def spike_def)
  note v = spike_valid[OF cb]
  have dims: "width (spike cx cy) = 4" "height (spike cx cy) = 4" "bpp (spike cx cy) = 1"
    by (simp_all add: spike_def)
  define mx px my py where n: "mx = clamp_coord 4 (x - 1)" "px = clamp_coord 4 (x + 1)"
    "my = clamp_coord 4 (y - 1)" "py = clamp_coord 4 (y + 1)"
  have nb: "0 \<le> mx" "mx < 4" "0 \<le> px" "px < 4" "0 \<le> my" "my < 4" "0 \<le> py" "py < 4"
    by (simp_all add: n clamp_coord_def)
  have val: "data (spike cx cy) ! nat (Index a b 4 0 1) = (if a = cx \<and> b = cy then 100 else 0)"
    if "0 \<le> a" "a < 4" "0 \<le> b" "b < 4" for a b
    using spot_at[OF cb that, of 100] by (simp add: spike_def)
  have "map (\<lambda>i. data (spike cx cy) ! nat i) (read_offsets (spike cx cy) x y 0) =
          [data (spike cx cy) ! nat (Index mx my 4 0 1), data (spike cx cy) ! nat (Index x my 4 0 1),
           data (spike cx cy) ! nat (Index px my 4 0 1), data (spike cx cy) ! nat (Index mx y 4 0 1),
           data (spike cx cy) ! nat (Index x y 4 0 1), data (spike cx cy) ! nat (Index px y 4 0 1),
           data (spike cx cy) ! nat (Index mx py 4 0 1), data (spike cx cy) ! nat (Index x py 4 0 1),
           data (spike cx cy) ! nat (Index px py 4 0 1)]"
    using xy by (simp add: read_offsets_neighbourhood[OF v i] neighbourhood_def n dims
        clamp_coord_id)
  then have "result_double rnd (spike cx cy) x y 0 SHARPEN =
      Some (5 * to_double (if x = cx \<and> y = cy then 100 else 0)
        - to_double (if x = cx \<and> my = cy then 100 else 0)
        - to_double (if mx = cx \<and> y = cy then 100 else 0)
        - to_double (if px = cx \<and> y = cy then 100 else 0)
        - to_double (if x = cx \<and> py = cy then 100 else 0))"
    by (simp only: result_double_valid[OF v i] sharpen_sum[OF e] val[OF xy] val[OF xy(1,2) nb(5,6)]
        val[OF nb(1,2) xy(3,4)] val[OF nb(3,4) xy(3,4)] val[OF xy(1,2) nb(7,8)])
  moreover have "to_double 100 = 100" "to_double 0 = 0" by (simp_all add: to_double_def)
  ultimately show ?thesis
    using c xy by (auto simp: n clamp_coord_def)
qed


lemma spike_pixel:
  assumes e: "exact_on_ints rnd" and c: "cx = 1 \<or> cx = 2" "cy = 1 \<or> cy = 2"
    and i: "in_image (spike cx cy) x y 0"
  shows "getPixelValue rnd (spike cx cy) x y 0 SHARPEN =
           Some (if x = cx \<and> y = cy then 255 else 0)"
proof -
  have "to_uint8 (clamp255 500) = 255" "to_uint8 (clamp255 (- 100)) = 0"
    "to_uint8 (clamp255 0) = 0"
    by (simp_all add: clamp255_def to_uint8_def)
  then show ?thesis
    by (simp add: getPixelValue_def spike_result[OF e c i])
qed

text \<open>
  C4: take the 4x4 single-channel image that is 0 except for one of the four centre
  pixels, which is 100, and convolve it with the sharpen kernel
  \<open>[[0,-1,0],[-1,5,-1],[0,-1,0]]\<close>. The destination is 255 at that pixel and 0 at every
  other pixel. Before clamping, the weighted sum is 500 at the centre pixel, -100 at
  its four direct neighbours and 0 elsewhere.
\<close>

theorem sharpen_clamps_spike:
  assumes "exact_on_ints rnd" and "cx = 1 \<or> cx = 2" and "cy = 1 \<or> cy = 2"
    and "valid_image destImage" and "same_shape (spike cx cy) destImage"
    and "\<not> malloc_ok e \<or> (1 \<le> num_threads e \<and> (\<forall>i<nat (num_threads e). create_rc e i = 0))"
  shows "snd (convolute rnd e (spike cx cy) destImage SHARPEN) =
           Returned (destImage\<lparr>data := (replicate 16 0)[nat (4 * cy + cx) := 255]\<rparr>) \<and>
         (\<forall>x y. in_image (spike cx cy) x y 0 \<longrightarrow>
            result_double rnd (spike cx cy) x y 0 SHARPEN =
              Some (if x = cx \<and> y = cy then 500
                    else if \<bar>x - cx\<bar> + \<bar>y - cy\<bar> = 1 then - 100 else 0))"
proof -
  let ?src = "spike cx cy"
  let ?out = "written (serial_ops rnd ?src SHARPEN) (data destImage)"
  from assms(2,3) have cb: "0 \<le> cx" "cx < 4" "0 \<le> cy" "cy < 4" by auto
  note v = spike_valid[OF cb]
  have dims: "width ?src = 4" "height ?src = 4" "bpp ?src = 1"
    by (simp_all add: spike_def)
  note sz = same_shape_size[OF v assms(4,5)]
  from assms(4,5) have len: "length (data destImage) = 16"
    by (simp add: valid_image_def same_shape_def dims)
  have "?out = (replicate 16 0)[nat (4 * cy + cx) := 255]"
  proof (rule nth_equalityI)
    show "length ?out = length ((replicate 16 0)[nat (4 * cy + cx) := 255])"
      by (simp add: length_written len)
  next
    fix j assume "j < length ?out"
    then have j: "0 \<le> int j" "int j < width ?src * height ?src * bpp ?src"
      by (simp_all add: length_written len dims)
    from offset_is_Index[OF v j] obtain x y bt where
      i: "in_image ?src x y bt" and e: "int j = Index x y (width ?src) bt (bpp ?src)" by blast
    from i have bt: "bt = 0" and xy: "0 \<le> x" "x < 4" "0 \<le> y" "y < 4"
      by (simp_all add: in_image_def dims)
    from e have nj: "nat (Index x y 4 0 1) = j" by (simp add: bt dims)
    from written_pixel[OF v sz i, of rnd SHARPEN] spike_pixel[OF assms(1,2,3) i[unfolded bt]]
    have "?out ! nat (Index x y 4 0 1) = (if x = cx \<and> y = cy then 255 else 0)"
      by (simp add: bt dims)
    with spot_at[OF cb xy, of 255]
    show "?out ! j = (replicate 16 0)[nat (4 * cy + cx) := 255] ! j"
      by (simp add: nj)
  qed
  then have "snd (convolute rnd e ?src destImage SHARPEN) =
           Returned (destImage\<lparr>data := (replicate 16 0)[nat (4 * cy + cx) := 255]\<rparr>)"
    by (simp add: convolute_returns[OF v sz assms(6)])
  moreover have "\<forall>x y. in_image ?src x y 0 \<longrightarrow>
            result_double rnd ?src x y 0 SHARPEN =
              Some (if x = cx \<and> y = cy then 500
                    else if \<bar>x - cx\<bar> + \<bar>y - cy\<bar> = 1 then - 100 else 0)"
    using spike_result[OF assms(1,2,3)] by blast
  ultimately show ?thesis by (intro conjI)
qed

theorem sharpen_clamps_spike_witness:
  "(exact_on_ints exact \<and> ((1::int) = 1 \<or> (1::int) = 2) \<and> ((2::int) = 1 \<or> (2::int) = 2) \<and>
    valid_image spike_dest \<and> same_shape (spike 1 2) spike_dest \<and>
    malloc_ok three_workers_env \<and> 1 \<le> num_threads three_workers_env \<and>
    in_image (spike 1 2) 1 2 0 \<and> in_image (spike 1 2) 1 3 0) \<and>
   data (spike 1 2) = [0, 0, 0, 0, 0, 0, 0, 0, 0, 100, 0, 0, 0, 0, 0, 0] \<and>
   snd (convolute exact three_workers_env (spike 1 2) spike_dest SHARPEN) =
     Returned \<lparr>data = [0, 0, 0, 0, 0, 0, 0, 0, 0, 255, 0, 0, 0, 0, 0, 0],
               width = 4, height = 4, bpp = 1\<rparr> \<and>
   result_double exact (spike 1 2) 1 2 0 SHARPEN = Some 500 \<and>
   result_double exact (spike 1 2) 1 3 0 SHARPEN = Some (- 100)"
proof -
  have h2: "(1::int) = 1 \<or> (1::int) = 2" and h3: "(2::int) = 1 \<or> (2::int) = 2" by simp_all
  have h4: "valid_image spike_dest"
    by (simp add: valid_image_def spike_dest_def c_int_def)
  have h5: "same_shape (spike 1 2) spike_dest"
    by (simp add: same_shape_def spike_def spike_dest_def)
  have h6: "\<not> malloc_ok three_workers_env \<or> (1 \<le> num_threads three_workers_env \<and>
       (\<forall>i<nat (num_threads three_workers_env). create_rc three_workers_env i = 0))"
    by (simp add: three_workers_env_def always_created_def num_threads_def s32_def)
  have i: "in_image (spike 1 2) 1 2 0" "in_image (spike 1 2) 1 3 0"
    by (simp_all add: in_image_def spike_def)
  have r16: "replicate 16 (0::byte) = [0, 0, 0, 0, 0, 0, 0, 0, 0, 0, 0, 0, 0, 0, 0, 0]"
    by (simp add: numeral_eq_Suc)
  have d: "data (spike 1 2) = [0, 0, 0, 0, 0, 0, 0, 0, 0, 100, 0, 0, 0, 0, 0, 0]"
    by (simp add: spike_def r16)
  note t = sharpen_clamps_spike[OF exact_exact h2 h3 h4 h5 h6]
  from t have "snd (convolute exact three_workers_env (spike 1 2) spike_dest SHARPEN) =
     Returned (spike_dest\<lparr>data := (replicate 16 0)[nat (4 * 2 + 1) := 255]\<rparr>)"
    by (rule conjunct1)
  then have o: "snd (convolute exact three_workers_env (spike 1 2) spike_dest SHARPEN) =
     Returned \<lparr>data = [0, 0, 0, 0, 0, 0, 0, 0, 0, 255, 0, 0, 0, 0, 0, 0],
               width = 4, height = 4, bpp = 1\<rparr>"
    by (simp add: spike_dest_def r16)
  from t have a: "\<forall>x y. in_image (spike 1 2) x y 0 \<longrightarrow>
            result_double exact (spike 1 2) x y 0 SHARPEN =
              Some (if x = 1 \<and> y = 2 then 500
                    else if \<bar>x - 1\<bar> + \<bar>y - 2\<bar> = 1 then - 100 else 0)"
    by (rule conjunct2)
  from a i(1) have r1: "result_double exact (spike 1 2) 1 2 0 SHARPEN = Some 500" by simp
  from a i(2) have r2: "result_double exact (spike 1 2) 1 3 0 SHARPEN = Some (- 100)" by simp
  have m: "malloc_ok three_workers_env" "1 \<le> num_threads three_workers_env"
    by (simp_all add: three_workers_env_def num_threads_def s32_def)
  from exact_exact h2 h3 h4 h5 m i d o r1 r2 show ?thesis by (intro conjI)
qed

subsection \<open>Scheduling for any source and destination\<close>

lemma launch_succeeds:
  "\<forall>i\<in>set is. rc i = 0 \<Longrightarrow>
     \<exists>tds. launch rc src k q r cur is = AllStarted tds \<and> length tds = length is"
proof (induction "is" arbitrary: r cur)
  case Nil
  then show ?case by simp
next
  case (Cons i "is")
  let ?rows = "if r > 0 then s32 (q + 1) else q"
  let ?r' = "if r > 0 then s32 (r - 1) else r"
  from Cons.prems have z: "rc i = 0" and rest: "\<forall>i\<in>set is. rc i = 0" by simp_all
  from Cons.IH[OF rest, of ?r' "s32 (cur + ?rows)"] obtain tds where
    "launch rc src k q ?r' (s32 (cur + ?rows)) is = AllStarted tds" "length tds = length is"
    by blast
  with z show ?case by (simp add: Let_def)
qed

lemma interleave_idle: "\<forall>q\<in>set qs. q = [] \<Longrightarrow> interleave sched qs = []"
proof (induction sched)
  case Nil
  then show ?case by simp
next
  case (Cons i sched)
  show ?case
  proof (cases "i < length qs")
    case True
    with Cons.prems have e: "qs ! i = []" by simp
    from True Cons.IH[OF Cons.prems] show ?thesis by (simp add: e)
  next
    case False
    with Cons.IH[OF Cons.prems] show ?thesis by simp
  qed
qed






lemma finish_unchanged: "finish destImage (Some (data destImage)) = Returned destImage"
  by (simp add: finish_def)

lemma convolute_serial:
  "\<not> malloc_ok e \<Longrightarrow>
     convolute rnd e src dest k =
       ([Print_threads (num_threads e), Print_alloc_error],
        finish dest (exec_ops (serial_ops rnd src k) (data dest)))"
  by (simp add: convolute_def Let_def)

lemma convolute_threaded:
  assumes "malloc_ok e" and "1 \<le> num_threads e"
    and "\<forall>i<nat (num_threads e). create_rc e i = 0"
  shows "\<exists>tds.
           launch (create_rc e) src k (c_div (height src) (num_threads e))
             (c_mod (height src) (num_threads e)) 0 [0..<nat (num_threads e)] = AllStarted tds \<and>
           length tds = nat (num_threads e) \<and>
           convolute rnd e src dest k =
             (Print_threads (num_threads e) # map Created [0..<nat (num_threads e)]
                @ map Joined [0..<nat (num_threads e)],
              finish dest (exec_ops (interleave (schedule e) (map (worker_ops rnd) tds))
                (data dest)))"
proof -
  from assms(3) have "\<forall>i\<in>set [0..<nat (num_threads e)]. create_rc e i = 0" by simp
  from launch_succeeds[OF this, of src k "c_div (height src) (num_threads e)"
      "c_mod (height src) (num_threads e)" 0]
  obtain tds where
    l: "launch (create_rc e) src k (c_div (height src) (num_threads e))
             (c_mod (height src) (num_threads e)) 0 [0..<nat (num_threads e)] = AllStarted tds"
    and n: "length tds = nat (num_threads e)"
    by auto
  from assms(1,2) l have "convolute rnd e src dest k =
             (Print_threads (num_threads e) # map Created [0..<nat (num_threads e)]
                @ map Joined [0..<nat (num_threads e)],
              finish dest (exec_ops (interleave (schedule e) (map (worker_ops rnd) tds))
                (data dest)))"
    by (simp add: convolute_def Let_def)
  with l n show ?thesis by blast
qed



lemma exec_ops_length: "exec_ops ops buf = Some buf' \<Longrightarrow> length buf' = length buf"
proof (induction ops arbitrary: buf)
  case Nil
  then show ?case by simp
next
  case (Cons p ops)
  obtain i v where p: "p = (i, v)" by (cases p)
  from Cons.prems p obtain b where "exec_ops ops (buf[nat i := b]) = Some buf'"
    by (auto simp: store_def split: option.splits if_splits)
  from Cons.IH[OF this] show ?case by simp
qed




subsection \<open>No precondition is checked\<close>





subsection \<open>The number of threads\<close>

text \<open>
  C9, as the code has it: the number of threads \<open>T\<close> is the result of the query,
  narrowed to \<open>int\<close>, and the scheduler goes on with it as it is; no value is replaced
  by 1. When the allocation fails, \<open>convolute\<close> prints \<open>T\<close> and runs the serial loops.
  When the allocations succeed, a \<open>T\<close> of at least 1 creates and joins exactly \<open>T\<close>
  workers (every \<open>pthread_create\<close> succeeding), a \<open>T\<close> of 0 divides by zero, and a
  negative \<open>T\<close> creates no worker and returns the destination as it was.
\<close>

theorem num_threads_is_the_query:
  assumes "c_int (num_cores e)"
  shows "num_threads e = num_cores e \<and>
         (\<not> malloc_ok e \<longrightarrow>
            convolute rnd e srcImage destImage algorithm =
              ([Print_threads (num_cores e), Print_alloc_error],
               finish destImage (exec_ops (serial_ops rnd srcImage algorithm) (data destImage)))) \<and>
         (malloc_ok e \<and> num_cores e = 0 \<longrightarrow>
            convolute rnd e srcImage destImage algorithm = ([Print_threads 0], Undefined)) \<and>
         (malloc_ok e \<and> num_cores e < 0 \<and>
            \<not> (height srcImage = - 2147483648 \<and> num_cores e = - 1) \<longrightarrow>
            convolute rnd e srcImage destImage algorithm =
              ([Print_threads (num_cores e)], Returned destImage)) \<and>
         (malloc_ok e \<and> 1 \<le> num_cores e \<and> (\<forall>i<nat (num_cores e). create_rc e i = 0) \<longrightarrow>
            fst (convolute rnd e srcImage destImage algorithm) =
              Print_threads (num_cores e) # map Created [0..<nat (num_cores e)]
                @ map Joined [0..<nat (num_cores e)])"
proof -
  let ?c = "convolute rnd e srcImage destImage algorithm"
  from assms have n: "num_threads e = num_cores e"
    by (simp add: num_threads_def s32_id)
  have a: "\<not> malloc_ok e \<longrightarrow>
            ?c = ([Print_threads (num_cores e), Print_alloc_error],
               finish destImage (exec_ops (serial_ops rnd srcImage algorithm) (data destImage)))"
    using convolute_serial[of e rnd srcImage destImage algorithm] by (simp add: n)
  have z: "malloc_ok e \<and> num_cores e = 0 \<longrightarrow> ?c = ([Print_threads 0], Undefined)"
    by (simp add: convolute_def Let_def n)
  have "interleave (schedule e) (map (worker_ops rnd) []) = []"
    by (rule interleave_idle) simp
  then have m: "malloc_ok e \<and> num_cores e < 0 \<and>
            \<not> (height srcImage = - 2147483648 \<and> num_cores e = - 1) \<longrightarrow>
            ?c = ([Print_threads (num_cores e)], Returned destImage)"
    by (auto simp: convolute_def Let_def n finish_unchanged)
  have p: "malloc_ok e \<and> 1 \<le> num_cores e \<and> (\<forall>i<nat (num_cores e). create_rc e i = 0) \<longrightarrow>
            fst ?c = Print_threads (num_cores e) # map Created [0..<nat (num_cores e)]
                @ map Joined [0..<nat (num_cores e)]"
  proof
    assume h: "malloc_ok e \<and> 1 \<le> num_cores e \<and> (\<forall>i<nat (num_cores e). create_rc e i = 0)"
    then have "malloc_ok e" "1 \<le> num_threads e" "\<forall>i<nat (num_threads e). create_rc e i = 0"
      by (simp_all add: n)
    from convolute_threaded[OF this, of srcImage algorithm rnd destImage]
    show "fst ?c = Print_threads (num_cores e) # map Created [0..<nat (num_cores e)]
                @ map Joined [0..<nat (num_cores e)]"
      by (auto simp: n)
  qed
  from n a z m p show ?thesis by (intro conjI)
qed

theorem num_threads_is_the_query_witness:
  "(c_int (num_cores two_workers_env) \<and> c_int (num_cores zero_cores_env) \<and>
    c_int (num_cores negative_cores_env) \<and> c_int (num_cores query_failed_env)) \<and>
   num_threads query_failed_env = - 1 \<and>
   fst (convolute exact query_failed_env two_rows two_rows_dest IDENTITY) =
     [Print_threads (- 1), Print_alloc_error] \<and>
   convolute exact zero_cores_env two_rows two_rows_dest IDENTITY =
     ([Print_threads 0], Undefined) \<and>
   convolute exact negative_cores_env two_rows two_rows_dest IDENTITY =
     ([Print_threads (- 1)], Returned two_rows_dest) \<and>
   fst (convolute exact two_workers_env two_rows two_rows_dest IDENTITY) =
     [Print_threads 2, Created 0, Created 1, Joined 0, Joined 1]"
proof -
  have c: "c_int (num_cores two_workers_env)" "c_int (num_cores zero_cores_env)"
    "c_int (num_cores negative_cores_env)" "c_int (num_cores query_failed_env)"
    by (simp_all add: two_workers_env_def zero_cores_env_def negative_cores_env_def
        query_failed_env_def c_int_def)
  note q = num_threads_is_the_query[OF c(4), of exact two_rows two_rows_dest IDENTITY]
  from q have r0: "num_threads query_failed_env = - 1"
    by (simp add: query_failed_env_def)
  have "\<not> malloc_ok query_failed_env" by (simp add: query_failed_env_def)
  with q have "convolute exact query_failed_env two_rows two_rows_dest IDENTITY =
              ([Print_threads (num_cores query_failed_env), Print_alloc_error],
               finish two_rows_dest (exec_ops (serial_ops exact two_rows IDENTITY)
                 (data two_rows_dest)))"
    by blast
  then have r1: "fst (convolute exact query_failed_env two_rows two_rows_dest IDENTITY) =
     [Print_threads (- 1), Print_alloc_error]"
    by (simp add: query_failed_env_def)
  note z = num_threads_is_the_query[OF c(2), of exact two_rows two_rows_dest IDENTITY]
  have "malloc_ok zero_cores_env \<and> num_cores zero_cores_env = 0"
    by (simp add: zero_cores_env_def)
  with z have r2: "convolute exact zero_cores_env two_rows two_rows_dest IDENTITY =
     ([Print_threads 0], Undefined)"
    by blast
  note g = num_threads_is_the_query[OF c(3), of exact two_rows two_rows_dest IDENTITY]
  have "malloc_ok negative_cores_env \<and> num_cores negative_cores_env < 0 \<and>
      \<not> (height two_rows = - 2147483648 \<and> num_cores negative_cores_env = - 1)"
    by (simp add: negative_cores_env_def two_rows_def)
  with g have "convolute exact negative_cores_env two_rows two_rows_dest IDENTITY =
     ([Print_threads (num_cores negative_cores_env)], Returned two_rows_dest)"
    by blast
  then have r3: "convolute exact negative_cores_env two_rows two_rows_dest IDENTITY =
     ([Print_threads (- 1)], Returned two_rows_dest)"
    by (simp add: negative_cores_env_def)
  note t = num_threads_is_the_query[OF c(1), of exact two_rows two_rows_dest IDENTITY]
  have "malloc_ok two_workers_env \<and> 1 \<le> num_cores two_workers_env \<and>
      (\<forall>i<nat (num_cores two_workers_env). create_rc two_workers_env i = 0)"
    by (simp add: two_workers_env_def always_created_def)
  with t have "fst (convolute exact two_workers_env two_rows two_rows_dest IDENTITY) =
      Print_threads (num_cores two_workers_env) # map Created [0..<nat (num_cores two_workers_env)]
        @ map Joined [0..<nat (num_cores two_workers_env)]"
    by blast
  then have r4: "fst (convolute exact two_workers_env two_rows two_rows_dest IDENTITY) =
     [Print_threads 2, Created 0, Created 1, Joined 0, Joined 1]"
    by (simp add: two_workers_env_def upt_conv_Cons)
  from c r0 r1 r2 r3 r4 show ?thesis by (intro conjI)
qed

text \<open>
  C9, as the specification states it, fails: when the query fails with \<open>-1\<close>, the
  number of threads is \<open>-1\<close>, and that is the number \<open>convolute\<close> prints and goes on
  with. With the allocations succeeding, a count of 0 is not replaced by 1 but divides
  the height, and a count of \<open>-1\<close> is not replaced by 1 either: no worker is created and
  the destination comes back unwritten.
\<close>

theorem at_least_one_thread_counterexample:
  "num_threads query_failed_env = - 1 \<and>
   fst (convolute exact query_failed_env two_rows two_rows_dest IDENTITY) =
     [Print_threads (- 1), Print_alloc_error] \<and>
   num_threads zero_cores_env = 0 \<and>
   convolute exact zero_cores_env two_rows two_rows_dest IDENTITY =
     ([Print_threads 0], Undefined) \<and>
   num_threads negative_cores_env = - 1 \<and>
   convolute exact negative_cores_env two_rows two_rows_dest IDENTITY =
     ([Print_threads (- 1)], Returned two_rows_dest)"
  by (simp add: convolute_def query_failed_env_def zero_cores_env_def negative_cores_env_def
      num_threads_def s32_def c_div_def c_mod_def Let_def finish_def two_rows_def
      two_rows_dest_def)

end
